theory Spec2Isabelle
  imports Main "HOL-Library.Word"
begin

unbundle bit_operations_syntax

section \<open>Hardware Bitcoin wallet: storage layout, user interface and protocol\<close>

text \<open>
  The development embeds three parts of the repository:
  \<^item> \<^verbatim>\<open>storage_common.h\<close>: the layout constants of non-volatile storage;
  \<^item> \<^verbatim>\<open>user_interface.c\<close> (LPC11Uxx port): the pending-output list, \<^verbatim>\<open>askUser\<close> and
    \<^verbatim>\<open>writeBackupSeed\<close>;
  \<^item> the protocol description that follows the C code: the packet format and the
    command catalogue.
\<close>

type_synonym u8 = "8 word"
type_synonym u32 = "32 word"

subsection \<open>\<^verbatim>\<open>storage_common.h\<close>\<close>

definition WALLET_RECORD_LENGTH :: nat where
  "WALLET_RECORD_LENGTH = 160"

definition ADDRESS_ENTROPY_POOL :: nat where
  "ADDRESS_ENTROPY_POOL = 64"

definition ADDRESS_POOL_CHECKSUM :: nat where
  "ADDRESS_POOL_CHECKSUM = 96"

definition ADDRESS_WALLET_STAGING :: nat where
  "ADDRESS_WALLET_STAGING = 128"

definition ADDRESS_WALLET_START :: nat where
  "ADDRESS_WALLET_START = ADDRESS_WALLET_STAGING + WALLET_RECORD_LENGTH"

text \<open>
  Modelled from the spec: the address of wallet record \<open>i\<close> (the storage manager that
  computes it is missing). The header's comment on \<^verbatim>\<open>ADDRESS_WALLET_START\<close> reads ``From
  here on, non-volatile storage will consist of sequential wallet records'': record 0
  starts at \<^verbatim>\<open>ADDRESS_WALLET_START\<close>, and each further record starts where the one before
  it ends. The staging area lies between \<^verbatim>\<open>ADDRESS_WALLET_STAGING\<close> and the first record.
\<close>

fun wallet_record_address :: "nat \<Rightarrow> nat" where
  "wallet_record_address 0 = ADDRESS_WALLET_START"
| "wallet_record_address (Suc i) = wallet_record_address i + WALLET_RECORD_LENGTH"

definition staging_area_length :: nat where
  "staging_area_length = wallet_record_address 0 - ADDRESS_WALLET_STAGING"

subsection \<open>The command catalogue of the protocol description\<close>

text \<open>
  The commands of the protocol description, by their type byte. For each command the
  description gives the length of its payload (``length is 77'') and, below it, the
  fields of the value, each with its width in bytes.
\<close>

datatype command =
    PING | ACK_PING | RETURN_SUCCESS | RETURN_FAILURE
  | CREATE_WALLET | NEW_ADDRESS | GET_NUM_ADDRESSES | GET_ADDRESS
  | SIGN_TRANSACTION | LOAD_WALLET | UNLOAD_WALLET | FORMAT_STORAGE
  | CHANGE_KEY | CHANGE_NAME | LIST_WALLETS | BACKUP_WALLET | RESTORE_WALLET

fun command_type :: "command \<Rightarrow> u8" where
  "command_type PING = 0x00"
| "command_type ACK_PING = 0x01"
| "command_type RETURN_SUCCESS = 0x02"
| "command_type RETURN_FAILURE = 0x03"
| "command_type CREATE_WALLET = 0x04"
| "command_type NEW_ADDRESS = 0x05"
| "command_type GET_NUM_ADDRESSES = 0x06"
| "command_type GET_ADDRESS = 0x09"
| "command_type SIGN_TRANSACTION = 0x0A"
| "command_type LOAD_WALLET = 0x0B"
| "command_type UNLOAD_WALLET = 0x0C"
| "command_type FORMAT_STORAGE = 0x0D"
| "command_type CHANGE_KEY = 0x0E"
| "command_type CHANGE_NAME = 0x0F"
| "command_type LIST_WALLETS = 0x10"
| "command_type BACKUP_WALLET = 0x11"
| "command_type RESTORE_WALLET = 0x12"

text \<open>
  The ``length is ...'' line of each command; \<open>None\<close> where the description fixes no
  length (``length can be anything'', ``unless something is returned'', ``4 + transaction
  data size'').
\<close>

fun declared_length :: "command \<Rightarrow> nat option" where
  "declared_length PING = None"
| "declared_length ACK_PING = None"
| "declared_length RETURN_SUCCESS = None"
| "declared_length RETURN_FAILURE = None"
| "declared_length CREATE_WALLET = Some 77"
| "declared_length NEW_ADDRESS = Some 0"
| "declared_length GET_NUM_ADDRESSES = Some 0"
| "declared_length GET_ADDRESS = Some 4"
| "declared_length SIGN_TRANSACTION = None"
| "declared_length LOAD_WALLET = Some 36"
| "declared_length UNLOAD_WALLET = Some 0"
| "declared_length FORMAT_STORAGE = Some 32"
| "declared_length CHANGE_KEY = Some 32"
| "declared_length CHANGE_NAME = Some 40"
| "declared_length LIST_WALLETS = Some 0"
| "declared_length BACKUP_WALLET = Some 2"
| "declared_length RESTORE_WALLET = Some 141"

text \<open>
  The fields a value is made of, with the width the description gives each of them:
  ``first 4 bytes of value are the little-endian wallet number'', ``next 1 byte of value
  specifies whether (non-zero) or not (zero) to create a hidden wallet'', ``next 32 bytes
  of value are the encryption key'', ``last 40 bytes of value are the wallet name'',
  ``last 64 bytes of value are the (unencrypted) deterministic address generator seed'',
  ``4-byte address handle'', an entropy pool state ``with close to 256 bits of entropy'',
  and the ``first byte'' and ``second byte'' of the backup command.
\<close>

datatype field =
    WALLET_NUMBER | HIDDEN_FLAG | ENCRYPTION_KEY | WALLET_NAME | GENERATOR_SEED
  | ADDRESS_HANDLE | ENTROPY_POOL_STATE | ENCRYPT_FLAG | DEVICE_ID

fun field_width :: "field \<Rightarrow> nat" where
  "field_width WALLET_NUMBER = 4"
| "field_width HIDDEN_FLAG = 1"
| "field_width ENCRYPTION_KEY = 32"
| "field_width WALLET_NAME = 40"
| "field_width GENERATOR_SEED = 64"
| "field_width ADDRESS_HANDLE = 4"
| "field_width ENTROPY_POOL_STATE = 256 div 8"
| "field_width ENCRYPT_FLAG = 1"
| "field_width DEVICE_ID = 1"

text \<open>The fields of each command's value, in the order of the description.\<close>

fun value_fields :: "command \<Rightarrow> field list" where
  "value_fields CREATE_WALLET = [WALLET_NUMBER, HIDDEN_FLAG, ENCRYPTION_KEY, WALLET_NAME]"
| "value_fields GET_ADDRESS = [ADDRESS_HANDLE]"
| "value_fields LOAD_WALLET = [WALLET_NUMBER, ENCRYPTION_KEY]"
| "value_fields FORMAT_STORAGE = [ENTROPY_POOL_STATE]"
| "value_fields CHANGE_KEY = [ENCRYPTION_KEY]"
| "value_fields CHANGE_NAME = [WALLET_NAME]"
| "value_fields BACKUP_WALLET = [ENCRYPT_FLAG, DEVICE_ID]"
| "value_fields RESTORE_WALLET =
     [WALLET_NUMBER, HIDDEN_FLAG, ENCRYPTION_KEY, WALLET_NAME, GENERATOR_SEED]"
| "value_fields _ = []"

definition fields_width :: "command \<Rightarrow> nat" where
  "fields_width c = sum_list (map field_width (value_fields c))"

subsection \<open>\<^verbatim>\<open>user_interface.c\<close>: state and hardware\<close>

definition MAX_OUTPUTS :: nat where
  "MAX_OUTPUTS = 20"

text \<open>
  The debounced outcome of one \<^verbatim>\<open>waitForButtonPress()\<close>: \<open>Cancel\<close> when the cancel
  button was down at the last sample (also when both buttons were), \<open>Accept\<close> otherwise.
  The polling and debouncing of the GPIO pins is not modelled; the user is the list of the
  outcomes still to come.
\<close>

datatype button = Accept | Cancel

text \<open>The calls made to the display driver and the button routines, in order.\<close>

datatype hw_call =
    ClearDisplay | DisplayOn | DisplayOff | NextLine
  | WriteStringToDisplay string
  | WriteStringToDisplayWordWrap string
  | WaitForNoButtonPress
  | WaitForButtonPress button

text \<open>
  The static variables of the file, and the log of hardware calls. A text buffer is
  modelled by the C string it holds (the characters before the first NUL).
\<close>

record ui_state =
  list_amount :: "string list"
  list_address :: "string list"
  list_index :: u32
  transaction_fee_set :: int
  transaction_fee_amount :: string
  hw_log :: "hw_call list"

text \<open>
  What can keep a function from returning: \<^verbatim>\<open>waitForButtonPress()\<close> waits for ever when no
  button is pressed any more, and an index beyond \<^verbatim>\<open>MAX_OUTPUTS\<close> reads outside the arrays.
\<close>

datatype fault = BLOCKED | OUT_OF_BOUNDS

type_synonym 'a result = "fault + ('a \<times> button list \<times> ui_state)"

definition hw :: "hw_call \<Rightarrow> ui_state \<Rightarrow> ui_state" where
  "hw c st = st\<lparr>hw_log := hw_log st @ [c]\<rparr>"

definition clearDisplay :: "ui_state \<Rightarrow> ui_state" where
  "clearDisplay = hw ClearDisplay"

definition displayOn :: "ui_state \<Rightarrow> ui_state" where
  "displayOn = hw DisplayOn"

definition displayOff :: "ui_state \<Rightarrow> ui_state" where
  "displayOff = hw DisplayOff"

definition nextLine :: "ui_state \<Rightarrow> ui_state" where
  "nextLine = hw NextLine"

definition writeStringToDisplay :: "string \<Rightarrow> ui_state \<Rightarrow> ui_state" where
  "writeStringToDisplay s = hw (WriteStringToDisplay s)"

definition writeStringToDisplayWordWrap :: "string \<Rightarrow> ui_state \<Rightarrow> ui_state" where
  "writeStringToDisplayWordWrap s = hw (WriteStringToDisplayWordWrap s)"

definition waitForNoButtonPress :: "ui_state \<Rightarrow> ui_state" where
  "waitForNoButtonPress = hw WaitForNoButtonPress"

text \<open>Returns 1 if the cancel button was pressed, 0 otherwise.\<close>

definition waitForButtonPress :: "button list \<Rightarrow> ui_state \<Rightarrow> u8 result" where
  "waitForButtonPress bs st =
     (case bs of
        [] \<Rightarrow> Inl BLOCKED
      | b # bs' \<Rightarrow> Inr (if b = Cancel then 1 else 0, bs', hw (WaitForButtonPress b) st))"

text \<open>Statements in sequence, and the sequencing of a call that may not return.\<close>

definition seq :: "('s \<Rightarrow> 's) list \<Rightarrow> 's \<Rightarrow> 's" where
  "seq fs s = fold (\<lambda>f. f) fs s"

definition and_then :: "fault + 'a \<Rightarrow> ('a \<Rightarrow> fault + 'b) \<Rightarrow> fault + 'b" where
  "and_then m f = (case m of Inl e \<Rightarrow> Inl e | Inr x \<Rightarrow> f x)"

subsection \<open>The pending outputs\<close>

text \<open>
  \<^verbatim>\<open>strncpy(dest, src, n); dest[n - 1] = '\0';\<close> leaves in \<open>dest\<close> the C string \<open>src\<close>, cut
  to \<open>n - 1\<close> characters. The buffer sizes \<^verbatim>\<open>TEXT_AMOUNT_LENGTH\<close> and
  \<^verbatim>\<open>TEXT_ADDRESS_LENGTH\<close> are defined outside this file and are parameters here.
\<close>

definition c_string :: "string \<Rightarrow> string" where
  "c_string s = takeWhile (\<lambda>c. c \<noteq> CHR 0x00) s"

definition strncpy_terminated :: "nat \<Rightarrow> string \<Rightarrow> string" where
  "strncpy_terminated n src = take (n - 1) (c_string src)"

definition newOutputSeen ::
  "nat \<Rightarrow> nat \<Rightarrow> string \<Rightarrow> string \<Rightarrow> ui_state \<Rightarrow> u8 \<times> ui_state" where
  "newOutputSeen TEXT_AMOUNT_LENGTH TEXT_ADDRESS_LENGTH text_amount text_address st =
     (if unat (list_index st) \<ge> MAX_OUTPUTS then (1, st)
      else
        (0, st\<lparr>list_amount := (list_amount st)
                   [unat (list_index st) := strncpy_terminated TEXT_AMOUNT_LENGTH text_amount],
                list_address := (list_address st)
                   [unat (list_index st) := strncpy_terminated TEXT_ADDRESS_LENGTH text_address],
                list_index := list_index st + 1\<rparr>))"

definition setTransactionFee :: "nat \<Rightarrow> string \<Rightarrow> ui_state \<Rightarrow> ui_state" where
  "setTransactionFee TEXT_AMOUNT_LENGTH text_amount st =
     st\<lparr>transaction_fee_amount := strncpy_terminated TEXT_AMOUNT_LENGTH text_amount,
        transaction_fee_set := 1\<rparr>"

definition clearOutputsSeen :: "ui_state \<Rightarrow> ui_state" where
  "clearOutputsSeen st = st\<lparr>list_index := 0, transaction_fee_set := 0\<rparr>"

text \<open>
  The state at reset: static storage is zero-initialised, so every buffer holds the empty
  string.
\<close>

definition initial_state :: ui_state where
  "initial_state =
     \<lparr>list_amount = replicate MAX_OUTPUTS [], list_address = replicate MAX_OUTPUTS [],
      list_index = 0, transaction_fee_set = 0, transaction_fee_amount = [], hw_log = []\<rparr>"

text \<open>The arrays have \<^verbatim>\<open>MAX_OUTPUTS\<close> rows.\<close>

definition arrays_ok :: "ui_state \<Rightarrow> bool" where
  "arrays_ok st \<longleftrightarrow>
     length (list_amount st) = MAX_OUTPUTS \<and> length (list_address st) = MAX_OUTPUTS"

text \<open>
  The invariant of the static variables: the arrays are whole and \<^verbatim>\<open>list_index\<close> is at
  most \<^verbatim>\<open>MAX_OUTPUTS\<close>.
\<close>

definition outputs_inv :: "ui_state \<Rightarrow> bool" where
  "outputs_inv st \<longleftrightarrow> arrays_ok st \<and> unat (list_index st) \<le> MAX_OUTPUTS"

subsection \<open>\<^verbatim>\<open>askUser\<close>\<close>

text \<open>
  The values of \<^verbatim>\<open>AskUserCommand\<close> that \<^verbatim>\<open>askUser\<close> compares its argument with; the
  enumeration itself is declared outside this file, and \<open>ASKUSER_OTHER\<close> stands for any
  value that is none of the seven.
\<close>

datatype AskUserCommand =
    ASKUSER_NUKE_WALLET | ASKUSER_NEW_ADDRESS | ASKUSER_SIGN_TRANSACTION | ASKUSER_FORMAT
  | ASKUSER_CHANGE_NAME | ASKUSER_BACKUP_WALLET | ASKUSER_RESTORE_WALLET
  | ASKUSER_OTHER int

lemma and_then_cong [fundef_cong]:
  "m = m' \<Longrightarrow> (\<And>x. m' = Inr x \<Longrightarrow> f x = f' x) \<Longrightarrow> and_then m f = and_then m' f'"
  by (simp add: and_then_def split: sum.splits)

lemma waitForButtonPress_shorter:
  "waitForButtonPress bs st = Inr (r, bs', st') \<Longrightarrow> length bs' < length bs"
  by (auto simp: waitForButtonPress_def split: list.splits)

text \<open>
  The loop \<^verbatim>\<open>for (i = 0; i < list_index; i++)\<close> of the sign-transaction branch, from the
  test of its condition on. \<open>i\<close> is a \<^verbatim>\<open>uint8_t\<close> and is compared with the 32-bit
  \<^verbatim>\<open>list_index\<close>; \<open>r\<close> is the current value of the variable \<^verbatim>\<open>r\<close>. Every pass waits
  for one button press, so the loop ends when the presses do.
\<close>

function sign_outputs_loop :: "u8 \<Rightarrow> u8 \<Rightarrow> button list \<Rightarrow> ui_state \<Rightarrow> u8 result" where
  "sign_outputs_loop i r bs st =
     (if ucast i < list_index st then
        (if unat i < MAX_OUTPUTS then
           and_then
             (waitForButtonPress bs
                (seq [clearDisplay, waitForNoButtonPress,
                      writeStringToDisplay ''Send '',
                      writeStringToDisplay (list_amount st ! unat i),
                      writeStringToDisplay '' BTC to '',
                      writeStringToDisplay (list_address st ! unat i),
                      writeStringToDisplay ''?''] st))
             (\<lambda>(r', bs', st').
                if r' \<noteq> 0 then Inr (r', bs', st')
                else sign_outputs_loop (i + 1) r' bs' st')
         else Inl OUT_OF_BOUNDS)
      else Inr (r, bs, st))"
  by pat_completeness auto
termination
  by (relation "measure (\<lambda>(i, r, bs, st). length bs)")
    (auto dest: waitForButtonPress_shorter)

text \<open>
  \<^verbatim>\<open>askUser\<close>. The local variable \<^verbatim>\<open>r\<close> is declared without a value; \<open>r_uninit\<close> is
  whatever its storage holds when the function is entered.
\<close>

definition askUser :: "AskUserCommand \<Rightarrow> u8 \<Rightarrow> button list \<Rightarrow> ui_state \<Rightarrow> u8 result" where
  "askUser command r_uninit bs st0 =
     (let st = seq [clearDisplay, displayOn] st0 in
      and_then
        (if command = ASKUSER_NUKE_WALLET then
           waitForButtonPress bs
             (seq [waitForNoButtonPress,
                   writeStringToDisplayWordWrap ''Delete current wallet and create new one?''] st)
         else if command = ASKUSER_NEW_ADDRESS then
           waitForButtonPress bs
             (seq [waitForNoButtonPress,
                   writeStringToDisplayWordWrap ''Create new address?''] st)
         else if command = ASKUSER_SIGN_TRANSACTION then
           and_then (sign_outputs_loop 0 r_uninit bs st)
             (\<lambda>(r, bs1, st1).
                if r = 0 \<and> transaction_fee_set st1 \<noteq> 0 then
                  waitForButtonPress bs1
                    (seq [clearDisplay, waitForNoButtonPress,
                          writeStringToDisplay ''Transaction fee:'',
                          nextLine,
                          writeStringToDisplay (transaction_fee_amount st1),
                          writeStringToDisplay '' BTC.'',
                          nextLine,
                          writeStringToDisplay ''Is this okay?''] st1)
                else Inr (r, bs1, st1))
         else if command = ASKUSER_FORMAT then
           and_then
             (waitForButtonPress bs
                (seq [waitForNoButtonPress,
                      writeStringToDisplayWordWrap
                        ''Format storage? This will delete everything!''] st))
             (\<lambda>(r, bs1, st1).
                if r = 0 then
                  and_then
                    (waitForButtonPress bs1
                       (seq [clearDisplay, waitForNoButtonPress,
                             writeStringToDisplayWordWrap
                               ''Are you sure you you want to nuke all wallets?''] st1))
                    (\<lambda>(r, bs2, st2).
                       if r = 0 then
                         waitForButtonPress bs2
                           (seq [clearDisplay, waitForNoButtonPress,
                                 writeStringToDisplayWordWrap
                                   ''Are you really really sure?''] st2)
                       else Inr (r, bs2, st2))
                else Inr (r, bs1, st1))
         else if command = ASKUSER_CHANGE_NAME then
           waitForButtonPress bs
             (seq [waitForNoButtonPress,
                   writeStringToDisplayWordWrap ''Change the name of the current wallet?''] st)
         else if command = ASKUSER_BACKUP_WALLET then
           waitForButtonPress bs
             (seq [waitForNoButtonPress,
                   writeStringToDisplayWordWrap
                     ''Do you want to backup the current wallet?''] st)
         else if command = ASKUSER_RESTORE_WALLET then
           waitForButtonPress bs
             (seq [waitForNoButtonPress,
                   writeStringToDisplayWordWrap
                     ''Delete current wallet and restore from a backup?''] st)
         else
           and_then
             (waitForButtonPress bs
                (seq [waitForNoButtonPress,
                      writeStringToDisplayWordWrap
                        ''Unknown command in askUser(). Press any button to continue...''] st))
             (\<lambda>(_, bs1, st1). Inr (1, bs1, st1)))
        (\<lambda>(r, bs1, st1). Inr (r, bs1, seq [clearDisplay, displayOff] st1)))"

subsection \<open>\<^verbatim>\<open>writeBackupSeed\<close>\<close>

definition nibbleToHex :: "u8 \<Rightarrow> char" where
  "nibbleToHex nibble =
     (let temp = nibble AND 0xf in
      if temp < 10 then char_of (of_char CHR ''0'' + unat temp)
      else char_of (of_char CHR ''a'' + (unat temp - 10)))"

text \<open>
  The loop over the seed, \<^verbatim>\<open>for (i = 0; i < SEED_LENGTH; i++)\<close>. The seed is the array of
  \<^verbatim>\<open>SEED_LENGTH\<close> bytes the caller passes, so the loop is a recursion over its bytes
  (\<^verbatim>\<open>SEED_LENGTH\<close> is defined outside this file; the protocol description gives the seed
  64 bytes, within the range of the \<^verbatim>\<open>uint8_t\<close> counter). \<^verbatim>\<open>displayCursorAtEnd()\<close> belongs
  to the display driver: it is a parameter here, a predicate on the calls made so far.
  The result is \<open>Some v\<close> when the loop body returned \<open>v\<close> from the function, \<open>None\<close> when
  the loop ran to its end.
\<close>

fun seed_loop ::
  "(hw_call list \<Rightarrow> bool) \<Rightarrow> u8 list \<Rightarrow> u8 \<Rightarrow> u8 \<Rightarrow> button list \<Rightarrow> ui_state
     \<Rightarrow> u8 option result" where
  "seed_loop displayCursorAtEnd [] byte_counter line_number bs st = Inr (None, bs, st)"
| "seed_loop displayCursorAtEnd (one_byte # seed) byte_counter line_number bs st =
     (let str = [nibbleToHex (drop_bit 4 one_byte), nibbleToHex one_byte];
          st1 = (if byte_counter = 0 then
                   writeStringToDisplay [nibbleToHex line_number, CHR '':''] st
                 else if byte_counter AND 1 = 0 then writeStringToDisplay '' '' st
                 else st);
          st2 = writeStringToDisplay str st1;
          byte_counter1 = byte_counter + 1;
          byte_counter2 = (if byte_counter1 = 6 then 0 else byte_counter1);
          line_number2 = (if byte_counter1 = 6 then line_number + 1 else line_number)
      in if displayCursorAtEnd (hw_log st2) then
           and_then (waitForButtonPress bs (waitForNoButtonPress st2))
             (\<lambda>(r, bs', st3).
                if r \<noteq> 0 then Inr (Some 2, bs', seq [clearDisplay, displayOff] st3)
                else seed_loop displayCursorAtEnd seed 0 line_number2 bs' (clearDisplay st3))
         else seed_loop displayCursorAtEnd seed byte_counter2 line_number2 bs st2)"

definition writeBackupSeed ::
  "(hw_call list \<Rightarrow> bool) \<Rightarrow> u8 list \<Rightarrow> u8 \<Rightarrow> u8 \<Rightarrow> button list \<Rightarrow> ui_state \<Rightarrow> u8 result" where
  "writeBackupSeed displayCursorAtEnd seed is_encrypted destination_device bs st0 =
     (if destination_device \<noteq> 0 then Inr (1, bs, st0)
      else
        and_then
          (waitForButtonPress bs
             (seq [clearDisplay, displayOn, waitForNoButtonPress,
                   (if is_encrypted \<noteq> 0 then
                      writeStringToDisplayWordWrap ''Backup is encrypted.''
                    else writeStringToDisplayWordWrap ''Backup is not encrypted.'')] st0))
          (\<lambda>(r, bs1, st1).
             if r \<noteq> 0 then Inr (2, bs1, seq [clearDisplay, displayOff] st1)
             else
               and_then
                 (seed_loop displayCursorAtEnd seed 0 0 bs1
                    (seq [clearDisplay, waitForNoButtonPress] st1))
                 (\<lambda>(returned, bs2, st2).
                    case returned of
                      Some v \<Rightarrow> Inr (v, bs2, st2)
                    | None \<Rightarrow>
                        and_then (waitForButtonPress bs2 (waitForNoButtonPress st2))
                          (\<lambda>(r, bs3, st3).
                             if r \<noteq> 0 then Inr (2, bs3, seq [clearDisplay, displayOff] st3)
                             else Inr (0, bs3, seq [clearDisplay, displayOff] st3)))))"

subsection \<open>The prompts of a signing session\<close>

text \<open>
  The calls \<^verbatim>\<open>askUser\<close> makes to ask about pending output \<open>i\<close>, and about the fee, when
  the user answers with button \<open>b\<close>. The theorems on the sign-transaction branch state the
  log of a session with them.
\<close>

definition output_prompt_calls :: "ui_state \<Rightarrow> nat \<Rightarrow> button \<Rightarrow> hw_call list" where
  "output_prompt_calls st i b =
     [ClearDisplay, WaitForNoButtonPress,
      WriteStringToDisplay ''Send '',
      WriteStringToDisplay (list_amount st ! i),
      WriteStringToDisplay '' BTC to '',
      WriteStringToDisplay (list_address st ! i),
      WriteStringToDisplay ''?'',
      WaitForButtonPress b]"

definition fee_prompt_calls :: "ui_state \<Rightarrow> button \<Rightarrow> hw_call list" where
  "fee_prompt_calls st b =
     [ClearDisplay, WaitForNoButtonPress,
      WriteStringToDisplay ''Transaction fee:'',
      NextLine,
      WriteStringToDisplay (transaction_fee_amount st),
      WriteStringToDisplay '' BTC.'',
      NextLine,
      WriteStringToDisplay ''Is this okay?'',
      WaitForButtonPress b]"

text \<open>
  A state for examples: two outputs reported by the transaction parser after
  \<^verbatim>\<open>clearOutputsSeen()\<close>, with the buffer sizes 22 and 36.
\<close>

definition two_outputs :: ui_state where
  "two_outputs =
     snd (newOutputSeen 22 36 ''0.5'' ''1BitcoinEaterAddressDontSendf59kuE''
       (snd (newOutputSeen 22 36 ''0.01'' ''1RaTTuSEN7jJUDiW1EGogHwtek7g9BiEn''
         (clearOutputsSeen initial_state))))"

subsection \<open>The packet format of the protocol description\<close>

text \<open>
  The protocol description: everything is a type of 1 byte, a length of 4 bytes and a
  value of \<open>n\<close> bytes, where the length is ``the little-endian length in bytes'' of the
  value.
\<close>

record packet =
  ptype :: u8
  plength :: u32
  pvalue :: "u8 list"

text \<open>A 32-bit number as four bytes, least significant byte first, and back.\<close>

definition le32_bytes :: "u32 \<Rightarrow> u8 list" where
  "le32_bytes w = [ucast w, ucast (drop_bit 8 w), ucast (drop_bit 16 w), ucast (drop_bit 24 w)]"

definition le32_value :: "u8 \<Rightarrow> u8 \<Rightarrow> u8 \<Rightarrow> u8 \<Rightarrow> u32" where
  "le32_value b0 b1 b2 b3 =
     ucast b0 OR push_bit 8 (ucast b1) OR push_bit 16 (ucast b2) OR push_bit 24 (ucast b3)"

text \<open>
  Modelled from the spec: the routine that sends a packet (the stream code of the
  repository is missing). \<open>encode\<close> lays a packet out as the format says:
  \<open>[type:1][length:4 LE][value:length]\<close>.
\<close>

definition encode :: "packet \<Rightarrow> u8 list" where
  "encode p = ptype p # le32_bytes (plength p) @ pvalue p"

text \<open>
  Modelled from the spec: the routine that receives a packet (missing as well). \<open>decode\<close>
  reads the type byte and the four length bytes and accepts the packet when exactly that
  many value bytes follow (``length always equals the value actually transferred'').
\<close>

definition decode :: "u8 list \<Rightarrow> packet option" where
  "decode bytes =
     (case bytes of
        t # b0 # b1 # b2 # b3 # v \<Rightarrow>
          (if length v = unat (le32_value b0 b1 b2 b3)
           then Some \<lparr>ptype = t, plength = le32_value b0 b1 b2 b3, pvalue = v\<rparr>
           else None)
      | _ \<Rightarrow> None)"

subsection \<open>The staged update of a wallet record\<close>

text \<open>
  \<^verbatim>\<open>storage_common.h\<close> reserves the staging area (``used to ensure that operations which
  write to a wallet are atomic'') and marks it \<^verbatim>\<open>\todo Actually use this\<close>. The routines
  that write wallet records are missing; what follows models them from the
  specification's description of the update.

  Modelled from the spec: non-volatile memory (the driver is missing) as the list of its
  bytes, with a read of \<open>n\<close> bytes at an address and a write of a block at an address.
\<close>

definition nv_read :: "nat \<Rightarrow> nat \<Rightarrow> u8 list \<Rightarrow> u8 list" where
  "nv_read address n mem = take n (drop address mem)"

definition nv_write :: "nat \<Rightarrow> u8 list \<Rightarrow> u8 list \<Rightarrow> u8 list" where
  "nv_write address bytes mem = take address mem @ bytes @ drop (address + length bytes) mem"

text \<open>
  Modelled from the spec: the writes an update is made of (the storage manager is
  missing). A write of one byte is the unit a power loss cannot split; the copy of the
  staging area into a record slot is ``the single verified bulk copy'' and is one step.
\<close>

datatype nv_op = WriteByte nat u8 | CopyRecord nat nat

fun apply_op :: "nv_op \<Rightarrow> u8 list \<Rightarrow> u8 list" where
  "apply_op (WriteByte address v) mem = mem[address := v]"
| "apply_op (CopyRecord src dst) mem = nv_write dst (nv_read src WALLET_RECORD_LENGTH mem) mem"

text \<open>Modelled from the spec: a block written one byte after the other.\<close>

fun bytewise :: "nat \<Rightarrow> u8 list \<Rightarrow> nv_op list" where
  "bytewise address [] = []"
| "bytewise address (v # vs) = WriteByte address v # bytewise (Suc address) vs"

text \<open>Modelled from the spec: the record in slot \<open>i\<close>.\<close>

definition read_record :: "nat \<Rightarrow> u8 list \<Rightarrow> u8 list" where
  "read_record i mem = nv_read (wallet_record_address i) WALLET_RECORD_LENGTH mem"

text \<open>
  Modelled from the spec: \<open>updateWalletField\<close> (the storage manager is missing): ``copy the
  current record into staging, apply the mutation to the staged copy, verify its internal
  checksum, bulk-copy staging \<open>\<rightarrow>\<close> final slot, invalidate staging''. The checksum is a
  parameter, \<open>checksum_ok\<close>, applied to the record read back from staging; invalidating
  the staging area overwrites it with zeros.
\<close>

definition stage_ops :: "(u8 list \<Rightarrow> u8 list) \<Rightarrow> nat \<Rightarrow> u8 list \<Rightarrow> nv_op list" where
  "stage_ops mutator i mem =
     bytewise ADDRESS_WALLET_STAGING (read_record i mem) @
     bytewise ADDRESS_WALLET_STAGING (mutator (read_record i mem))"

definition updateWalletField_ops ::
  "(u8 list \<Rightarrow> u8 list) \<Rightarrow> (u8 list \<Rightarrow> bool) \<Rightarrow> nat \<Rightarrow> u8 list \<Rightarrow> nv_op list" where
  "updateWalletField_ops mutator checksum_ok i mem =
     stage_ops mutator i mem @
     (if checksum_ok
           (nv_read ADDRESS_WALLET_STAGING WALLET_RECORD_LENGTH
              (fold apply_op (stage_ops mutator i mem) mem))
      then CopyRecord ADDRESS_WALLET_STAGING (wallet_record_address i) #
           bytewise ADDRESS_WALLET_STAGING (replicate WALLET_RECORD_LENGTH 0)
      else [])"

text \<open>
  Modelled from the spec: the memory found after a power loss that let the first \<open>j\<close>
  writes of the update through, and the memory after the whole update.
\<close>

definition power_loss_after ::
  "nat \<Rightarrow> (u8 list \<Rightarrow> u8 list) \<Rightarrow> (u8 list \<Rightarrow> bool) \<Rightarrow> nat \<Rightarrow> u8 list \<Rightarrow> u8 list" where
  "power_loss_after j mutator checksum_ok i mem =
     fold apply_op (take j (updateWalletField_ops mutator checksum_ok i mem)) mem"

definition updateWalletField ::
  "(u8 list \<Rightarrow> u8 list) \<Rightarrow> (u8 list \<Rightarrow> bool) \<Rightarrow> nat \<Rightarrow> u8 list \<Rightarrow> u8 list" where
  "updateWalletField mutator checksum_ok i mem =
     fold apply_op (updateWalletField_ops mutator checksum_ok i mem) mem"

text \<open>Every write of a list is a byte write below address \<open>b\<close>.\<close>

definition writes_below :: "nat \<Rightarrow> nv_op list \<Rightarrow> bool" where
  "writes_below b ops \<longleftrightarrow> (\<forall>op \<in> set ops. \<exists>a v. op = WriteByte a v \<and> a < b)"

section \<open>Theorems\<close>

subsection \<open>Evaluation rules\<close>

lemma seq_Nil [simp]: "seq [] s = s"
  by (simp add: seq_def)

lemma seq_Cons [simp]: "seq (f # fs) s = seq fs (f s)"
  by (simp add: seq_def)

lemmas hw_calls =
  hw_def clearDisplay_def displayOn_def displayOff_def nextLine_def writeStringToDisplay_def
  writeStringToDisplayWordWrap_def waitForNoButtonPress_def

lemma and_then_Inr [simp]: "and_then (Inr x) f = f x"
  by (simp add: and_then_def)

lemma and_then_Inl [simp]: "and_then (Inl e) f = Inl e"
  by (simp add: and_then_def)

lemma waitForButtonPress_Cons [simp]:
  "waitForButtonPress (b # bs) st =
     Inr (if b = Cancel then 1 else 0, bs, st\<lparr>hw_log := hw_log st @ [WaitForButtonPress b]\<rparr>)"
  by (simp add: waitForButtonPress_def hw_def)

lemma waitForButtonPress_Nil [simp]: "waitForButtonPress [] st = Inl BLOCKED"
  by (simp add: waitForButtonPress_def)

lemma strncpy_terminated_fits:
  "length (c_string src) < n \<Longrightarrow> strncpy_terminated n src = c_string src"
  by (simp add: strncpy_terminated_def)

lemma unat_list_index_Suc:
  "unat (x :: u32) < MAX_OUTPUTS \<Longrightarrow> unat (x + 1) = unat x + 1"
  by (simp add: MAX_OUTPUTS_def unat_word_ariths)

subsection \<open>Storage layout\<close>

lemma wallet_record_address_closed:
  "wallet_record_address i = ADDRESS_WALLET_START + i * WALLET_RECORD_LENGTH"
  by (induction i) simp_all

text \<open>
  Claim C5. The layout constants give the partition of the specification: the entropy
  pool is at offset 64, its checksum at offset 96, the staging area at offset 128; the
  staging area is as long as a wallet record, 160 bytes, a multiple of 16; and wallet
  record \<open>i\<close> starts at offset \<open>(128 + 160) + i * 160\<close>.
\<close>

theorem C5_storage_layout:
  "ADDRESS_ENTROPY_POOL = 64
   \<and> ADDRESS_POOL_CHECKSUM = 96
   \<and> ADDRESS_WALLET_STAGING = 128
   \<and> staging_area_length = WALLET_RECORD_LENGTH
   \<and> WALLET_RECORD_LENGTH = 160
   \<and> WALLET_RECORD_LENGTH mod 16 = 0
   \<and> wallet_record_address i = (128 + WALLET_RECORD_LENGTH) + i * WALLET_RECORD_LENGTH"
  by (simp add: wallet_record_address_closed staging_area_length_def ADDRESS_WALLET_START_def
      ADDRESS_WALLET_STAGING_def ADDRESS_POOL_CHECKSUM_def ADDRESS_ENTROPY_POOL_def
      WALLET_RECORD_LENGTH_def)

subsection \<open>The loop over the pending outputs\<close>

lemma unat_ucast_u8_u32: "unat (ucast (i :: u8) :: u32) = unat i"
proof -
  have "unat i < 2 ^ 8" using unsigned_less [of i, where 'a = nat] by simp
  then have "unat i < 2 ^ 32" by simp
  then show ?thesis by (simp add: unsigned_ucast_eq take_bit_nat_eq_self)
qed

lemma ucast_less_list_index: "ucast (i :: u8) < (x :: u32) \<longleftrightarrow> unat i < unat x"
  by (simp add: word_less_nat_alt unat_ucast_u8_u32)

lemma unat_u8_Suc: "unat (i :: u8) < MAX_OUTPUTS \<Longrightarrow> unat (i + 1) = Suc (unat i)"
  by (simp add: MAX_OUTPUTS_def unat_word_ariths)

lemma output_prompt_calls_log [simp]:
  "output_prompt_calls (st\<lparr>hw_log := l\<rparr>) i b = output_prompt_calls st i b"
  by (simp add: output_prompt_calls_def)

declare sign_outputs_loop.simps [simp del]

lemma sign_outputs_loop_exit:
  "\<not> unat i < unat (list_index st) \<Longrightarrow> sign_outputs_loop i r bs st = Inr (r, bs, st)"
  by (subst sign_outputs_loop.simps) (simp add: ucast_less_list_index)

lemma sign_outputs_loop_blocked:
  "unat i < unat (list_index st) \<Longrightarrow> unat i < MAX_OUTPUTS \<Longrightarrow>
   sign_outputs_loop i r [] st = Inl BLOCKED"
  by (subst sign_outputs_loop.simps) (simp add: ucast_less_list_index)

lemma sign_outputs_loop_cancel:
  "unat i < unat (list_index st) \<Longrightarrow> unat i < MAX_OUTPUTS \<Longrightarrow>
   sign_outputs_loop i r (Cancel # bs) st =
     Inr (1, bs, st\<lparr>hw_log := hw_log st @ output_prompt_calls st (unat i) Cancel\<rparr>)"
  by (subst sign_outputs_loop.simps)
    (simp add: ucast_less_list_index hw_calls output_prompt_calls_def)

lemma sign_outputs_loop_accept:
  "unat i < unat (list_index st) \<Longrightarrow> unat i < MAX_OUTPUTS \<Longrightarrow>
   sign_outputs_loop i r (Accept # bs) st =
     sign_outputs_loop (i + 1) 0 bs
       (st\<lparr>hw_log := hw_log st @ output_prompt_calls st (unat i) Accept\<rparr>)"
  by (subst sign_outputs_loop.simps)
    (simp add: ucast_less_list_index hw_calls output_prompt_calls_def)

lemma upt_shift: "[n..<Suc (n + k)] = n # [Suc n..<Suc (n + k)]"
  by (simp add: upt_conv_Cons del: upt_Suc)

lemma sign_outputs_loop_accepts:
  "unat i + k = unat (list_index st) \<Longrightarrow> unat (list_index st) \<le> MAX_OUTPUTS \<Longrightarrow>
   sign_outputs_loop i r (replicate k Accept @ rest) st =
     Inr (if k = 0 then r else 0, rest,
          st\<lparr>hw_log := hw_log st @
            concat (map (\<lambda>j. output_prompt_calls st j Accept) [unat i..<unat i + k])\<rparr>)"
proof (induction k arbitrary: i r st)
  case 0
  then show ?case by (simp add: sign_outputs_loop_exit)
next
  case (Suc k)
  then have lt: "unat i < unat (list_index st)" "unat i < MAX_OUTPUTS" by simp_all
  have nxt: "unat (i + 1) = Suc (unat i)" using lt by (simp add: unat_u8_Suc)
  let ?st = "st\<lparr>hw_log := hw_log st @ output_prompt_calls st (unat i) Accept\<rparr>"
  have "sign_outputs_loop (i + 1) 0 (replicate k Accept @ rest) ?st =
     Inr (if k = 0 then 0 else 0, rest,
          ?st\<lparr>hw_log := hw_log ?st @
            concat (map (\<lambda>j. output_prompt_calls ?st j Accept) [unat (i + 1)..<unat (i + 1) + k])\<rparr>)"
    using Suc.prems by (intro Suc.IH) (simp_all add: nxt)
  then show ?case
    using lt by (simp add: sign_outputs_loop_accept nxt upt_shift del: upt_Suc)
qed

lemma sign_outputs_loop_denied:
  "unat i + k < unat (list_index st) \<Longrightarrow> unat (list_index st) \<le> MAX_OUTPUTS \<Longrightarrow>
   sign_outputs_loop i r (replicate k Accept @ Cancel # rest) st =
     Inr (1, rest,
          st\<lparr>hw_log := hw_log st @
            concat (map (\<lambda>j. output_prompt_calls st j Accept) [unat i..<unat i + k]) @
            output_prompt_calls st (unat i + k) Cancel\<rparr>)"
proof (induction k arbitrary: i r st)
  case 0
  then show ?case by (simp add: sign_outputs_loop_cancel)
next
  case (Suc k)
  then have lt: "unat i < unat (list_index st)" "unat i < MAX_OUTPUTS" by simp_all
  have nxt: "unat (i + 1) = Suc (unat i)" using lt by (simp add: unat_u8_Suc)
  let ?st = "st\<lparr>hw_log := hw_log st @ output_prompt_calls st (unat i) Accept\<rparr>"
  have "sign_outputs_loop (i + 1) 0 (replicate k Accept @ Cancel # rest) ?st =
     Inr (1, rest,
          ?st\<lparr>hw_log := hw_log ?st @
            concat (map (\<lambda>j. output_prompt_calls ?st j Accept) [unat (i + 1)..<unat (i + 1) + k]) @
            output_prompt_calls ?st (unat (i + 1) + k) Cancel\<rparr>)"
    using Suc.prems by (intro Suc.IH) (simp_all add: nxt)
  then show ?case
    using lt by (simp add: sign_outputs_loop_accept nxt upt_shift del: upt_Suc)
qed

lemma sign_outputs_loop_result:
  "sign_outputs_loop i r bs st = Inr (r1, bs1, st1) \<Longrightarrow>
   unat i + m = unat (list_index st) \<Longrightarrow> unat (list_index st) \<le> MAX_OUTPUTS \<Longrightarrow>
   (\<exists>X. st1 = st\<lparr>hw_log := hw_log st @ X\<rparr> \<and> NextLine \<notin> set X)
   \<and> (bs = replicate m Accept @ bs1 \<and> r1 = (if m = 0 then r else 0)
      \<or> r1 = 1 \<and> (\<exists>k<m. bs = replicate k Accept @ Cancel # bs1))"
proof (induction m arbitrary: i r st bs)
  case 0
  then have "r1 = r" "bs1 = bs" "st1 = st" by (simp_all add: sign_outputs_loop_exit)
  moreover have "st = st\<lparr>hw_log := hw_log st @ []\<rparr>" "NextLine \<notin> set []" by simp_all
  ultimately show ?case by (metis append_Nil replicate_0)
next
  case (Suc m)
  then have lt: "unat i < unat (list_index st)" "unat i < MAX_OUTPUTS" by simp_all
  have nxt: "unat (i + 1) = Suc (unat i)" using lt by (simp add: unat_u8_Suc)
  show ?case
  proof (cases bs)
    case Nil
    with Suc.prems lt show ?thesis by (simp add: sign_outputs_loop_blocked)
  next
    case (Cons b bs')
    show ?thesis
    proof (cases b)
      case Cancel
      with Cons Suc.prems(1) lt
      have "r1 = 1" "bs1 = bs'"
        "st1 = st\<lparr>hw_log := hw_log st @ output_prompt_calls st (unat i) Cancel\<rparr>"
        by (simp_all add: sign_outputs_loop_cancel)
      moreover have "NextLine \<notin> set (output_prompt_calls st (unat i) Cancel)"
        by (simp add: output_prompt_calls_def)
      moreover have "bs = replicate 0 Accept @ Cancel # bs1"
        using Cons Cancel \<open>bs1 = bs'\<close> by simp
      ultimately show ?thesis by blast
    next
      case Accept
      let ?st = "st\<lparr>hw_log := hw_log st @ output_prompt_calls st (unat i) Accept\<rparr>"
      from Cons Accept Suc.prems(1) lt
      have rec: "sign_outputs_loop (i + 1) 0 bs' ?st = Inr (r1, bs1, st1)"
        by (simp add: sign_outputs_loop_accept)
      have ih: "(\<exists>X. st1 = ?st\<lparr>hw_log := hw_log ?st @ X\<rparr> \<and> NextLine \<notin> set X)
        \<and> (bs' = replicate m Accept @ bs1 \<and> r1 = (if m = 0 then 0 else 0)
           \<or> r1 = 1 \<and> (\<exists>k<m. bs' = replicate k Accept @ Cancel # bs1))"
        using Suc.prems by (intro Suc.IH [OF rec]) (simp_all add: nxt)
      then obtain X where X: "st1 = ?st\<lparr>hw_log := hw_log ?st @ X\<rparr>" "NextLine \<notin> set X"
        by blast
      have log: "st1 = st\<lparr>hw_log := hw_log st @ (output_prompt_calls st (unat i) Accept @ X)\<rparr>"
        "NextLine \<notin> set (output_prompt_calls st (unat i) Accept @ X)"
        using X by (simp_all add: output_prompt_calls_def)
      from ih have "bs' = replicate m Accept @ bs1 \<and> r1 = 0
           \<or> r1 = 1 \<and> (\<exists>k<m. bs' = replicate k Accept @ Cancel # bs1)"
        by simp
      then have "bs = replicate (Suc m) Accept @ bs1 \<and> r1 = (if Suc m = 0 then r else 0)
           \<or> r1 = 1 \<and> (\<exists>k<Suc m. bs = replicate k Accept @ Cancel # bs1)"
      proof
        assume "bs' = replicate m Accept @ bs1 \<and> r1 = 0"
        then show ?thesis using Cons Accept by simp
      next
        assume "r1 = 1 \<and> (\<exists>k<m. bs' = replicate k Accept @ Cancel # bs1)"
        then obtain k where "k < m" "bs' = replicate k Accept @ Cancel # bs1" "r1 = 1" by blast
        then have "Suc k < Suc m" "bs = replicate (Suc k) Accept @ Cancel # bs1"
          using Cons Accept by simp_all
        with \<open>r1 = 1\<close> show ?thesis by blast
      qed
      with log show ?thesis by blast
    qed
  qed
qed

lemma fee_prompt_calls_log [simp]:
  "fee_prompt_calls (st\<lparr>hw_log := l\<rparr>) b = fee_prompt_calls st b"
  by (simp add: fee_prompt_calls_def)

lemma askUser_sign:
  "askUser ASKUSER_SIGN_TRANSACTION r bs st =
     and_then (sign_outputs_loop 0 r bs (st\<lparr>hw_log := hw_log st @ [ClearDisplay, DisplayOn]\<rparr>))
       (\<lambda>(r1, bs1, st1).
          if r1 = 0 \<and> transaction_fee_set st1 \<noteq> 0 then
            (case bs1 of
               [] \<Rightarrow> Inl BLOCKED
             | b # bs2 \<Rightarrow>
                 Inr (if b = Cancel then 1 else 0, bs2,
                      st1\<lparr>hw_log := hw_log st1 @ fee_prompt_calls st1 b @
                                     [ClearDisplay, DisplayOff]\<rparr>))
          else Inr (r1, bs1, st1\<lparr>hw_log := hw_log st1 @ [ClearDisplay, DisplayOff]\<rparr>))"
  unfolding askUser_def Let_def
  by (auto simp: hw_calls fee_prompt_calls_def waitForButtonPress_def and_then_def
      split: sum.splits list.splits)

subsection \<open>The command catalogue\<close>

text \<open>
  Claim C7. For every command whose payload length the description fixes, that length is
  the sum of the widths of the fields of its value: create-wallet 77 = 4 + 1 + 32 + 40,
  load-wallet 36 = 4 + 32, restore-wallet 141 = 4 + 1 + 32 + 40 + 64, format-storage 32,
  change-key 32, change-name 40, backup-wallet 2 and get-address 4.
\<close>

theorem C7_payload_lengths:
  "(\<forall>c n. declared_length c = Some n \<longrightarrow> fields_width c = n)
   \<and> declared_length CREATE_WALLET = Some 77 \<and> fields_width CREATE_WALLET = 4 + 1 + 32 + 40
   \<and> declared_length LOAD_WALLET = Some 36 \<and> fields_width LOAD_WALLET = 4 + 32
   \<and> declared_length RESTORE_WALLET = Some 141
   \<and> fields_width RESTORE_WALLET = 4 + 1 + 32 + 40 + 64
   \<and> declared_length FORMAT_STORAGE = Some 32
   \<and> declared_length CHANGE_KEY = Some 32
   \<and> declared_length CHANGE_NAME = Some 40
   \<and> declared_length BACKUP_WALLET = Some 2
   \<and> declared_length GET_ADDRESS = Some 4"
proof -
  have "fields_width c = n" if "declared_length c = Some n" for c n
    using that by (cases c) (simp_all add: fields_width_def)
  then show ?thesis
    by (simp add: fields_width_def)
qed

theorem C7_payload_lengths_witness:
  "declared_length RESTORE_WALLET = Some 141 \<and> fields_width RESTORE_WALLET = 141"
  using C7_payload_lengths by simp

subsection \<open>The pending outputs\<close>

text \<open>
  Claim C3. \<^verbatim>\<open>MAX_OUTPUTS\<close> is 20. When \<^verbatim>\<open>list_index\<close> has reached it, \<^verbatim>\<open>newOutputSeen\<close>
  returns 1 and changes nothing. Below it, \<^verbatim>\<open>newOutputSeen\<close> returns 0, stores the pair
  in row \<^verbatim>\<open>list_index\<close> (each text cut to its buffer, and whole when it fits), adds one to
  \<^verbatim>\<open>list_index\<close> and leaves every other row, the fee and the display as they were.
\<close>

theorem C3_newOutputSeen:
  "MAX_OUTPUTS = 20
   \<and> (MAX_OUTPUTS \<le> unat (list_index st) \<longrightarrow> newOutputSeen al dl a d st = (1, st))
   \<and> (unat (list_index st) < MAX_OUTPUTS \<and> arrays_ok st \<longrightarrow>
        (\<exists>st'. newOutputSeen al dl a d st = (0, st')
           \<and> unat (list_index st') = unat (list_index st) + 1
           \<and> list_amount st' ! unat (list_index st) = strncpy_terminated al a
           \<and> list_address st' ! unat (list_index st) = strncpy_terminated dl d
           \<and> (length (c_string a) < al \<longrightarrow> list_amount st' ! unat (list_index st) = c_string a)
           \<and> (length (c_string d) < dl \<longrightarrow> list_address st' ! unat (list_index st) = c_string d)
           \<and> (\<forall>j. j \<noteq> unat (list_index st) \<longrightarrow>
                 list_amount st' ! j = list_amount st ! j
                 \<and> list_address st' ! j = list_address st ! j)
           \<and> arrays_ok st'
           \<and> transaction_fee_set st' = transaction_fee_set st
           \<and> transaction_fee_amount st' = transaction_fee_amount st
           \<and> hw_log st' = hw_log st))"
  by (auto simp: newOutputSeen_def arrays_ok_def unat_list_index_Suc strncpy_terminated_fits
      MAX_OUTPUTS_def)

theorem C3_newOutputSeen_witness:
  "fst (newOutputSeen 22 36 ''0.01'' ''1RaTTuSEN7jJUDiW1EGogHwtek7g9BiEn'' initial_state) = 0
   \<and> unat (list_index (snd (newOutputSeen 22 36 ''0.01'' ''1RaTTuSEN7jJUDiW1EGogHwtek7g9BiEn''
        initial_state))) = 1
   \<and> list_amount (snd (newOutputSeen 22 36 ''0.01'' ''1RaTTuSEN7jJUDiW1EGogHwtek7g9BiEn''
        initial_state)) ! 0 = ''0.01''
   \<and> list_address (snd (newOutputSeen 22 36 ''0.01'' ''1RaTTuSEN7jJUDiW1EGogHwtek7g9BiEn''
        initial_state)) ! 0 = ''1RaTTuSEN7jJUDiW1EGogHwtek7g9BiEn''
   \<and> newOutputSeen 22 36 ''0.01'' ''1RaTTuSEN7jJUDiW1EGogHwtek7g9BiEn''
        (initial_state\<lparr>list_index := 20\<rparr>) = (1, initial_state\<lparr>list_index := 20\<rparr>)"
proof -
  have ok: "arrays_ok initial_state" "unat (list_index initial_state) < MAX_OUTPUTS"
    by (simp_all add: arrays_ok_def initial_state_def MAX_OUTPUTS_def)
  have full: "MAX_OUTPUTS \<le> unat (list_index (initial_state\<lparr>list_index := 20\<rparr>))"
    by (simp add: MAX_OUTPUTS_def)
  have fits: "length (c_string ''0.01'') < 22"
    "length (c_string ''1RaTTuSEN7jJUDiW1EGogHwtek7g9BiEn'') < 36"
    by (simp_all add: c_string_def)
  have str: "c_string ''0.01'' = ''0.01''"
    "c_string ''1RaTTuSEN7jJUDiW1EGogHwtek7g9BiEn'' = ''1RaTTuSEN7jJUDiW1EGogHwtek7g9BiEn''"
    by (simp_all add: c_string_def)
  have zero: "unat (list_index initial_state) = 0"
    by (simp add: initial_state_def)
  from C3_newOutputSeen [of initial_state 22 36 "''0.01''" "''1RaTTuSEN7jJUDiW1EGogHwtek7g9BiEn''"]
    C3_newOutputSeen [of "initial_state\<lparr>list_index := 20\<rparr>" 22 36 "''0.01''"
      "''1RaTTuSEN7jJUDiW1EGogHwtek7g9BiEn''"]
    ok full fits
  show ?thesis
    unfolding zero str by auto
qed

subsection \<open>\<^verbatim>\<open>askUser\<close>: signing a transaction\<close>

text \<open>
  Claim C2. In a state with \<open>n\<close> pending outputs (\<open>n\<close> at most \<^verbatim>\<open>MAX_OUTPUTS\<close>, as in every
  state the functions of the file produce), whatever \<^verbatim>\<open>r\<close> held on entry:
  \<^item> when the user accepts outputs \<open>0\<close> to \<open>j - 1\<close> and cancels at output \<open>j\<close>, the prompts
    for outputs \<open>0\<close> to \<open>j\<close> are shown once each, in order, no prompt for a later output and
    no fee prompt follows, and \<^verbatim>\<open>askUser\<close> returns 1;
  \<^item> when the user accepts all \<open>n > 0\<close> outputs and no fee is set, no fee prompt is shown
    and \<^verbatim>\<open>askUser\<close> returns 0;
  \<^item> when the user accepts all \<open>n > 0\<close> outputs and a fee is set, the fee prompt follows
    and its answer is returned;
  \<^item> \<^verbatim>\<open>askUser\<close> returns 0 only when the presses it read were accepts, one for each
    output and one more for the fee if set;
  \<^item> the fee prompt (the only caller of \<^verbatim>\<open>nextLine()\<close>) is shown only when a fee is set
    and all \<open>n\<close> outputs were accepted.
\<close>

theorem C2_sign_transaction_approval:
  assumes n: "unat (list_index st) = n" and max: "n \<le> MAX_OUTPUTS"
  shows
    "(\<forall>j rest. j < n \<longrightarrow>
        askUser ASKUSER_SIGN_TRANSACTION r_uninit (replicate j Accept @ Cancel # rest) st =
          Inr (1, rest,
               st\<lparr>hw_log := hw_log st @ [ClearDisplay, DisplayOn] @
                 concat (map (\<lambda>i. output_prompt_calls st i Accept) [0..<j]) @
                 output_prompt_calls st j Cancel @ [ClearDisplay, DisplayOff]\<rparr>))
     \<and> (\<forall>rest. 0 < n \<and> transaction_fee_set st = 0 \<longrightarrow>
        askUser ASKUSER_SIGN_TRANSACTION r_uninit (replicate n Accept @ rest) st =
          Inr (0, rest,
               st\<lparr>hw_log := hw_log st @ [ClearDisplay, DisplayOn] @
                 concat (map (\<lambda>i. output_prompt_calls st i Accept) [0..<n]) @
                 [ClearDisplay, DisplayOff]\<rparr>))
     \<and> (\<forall>b rest. 0 < n \<and> transaction_fee_set st \<noteq> 0 \<longrightarrow>
        askUser ASKUSER_SIGN_TRANSACTION r_uninit (replicate n Accept @ b # rest) st =
          Inr (if b = Cancel then 1 else 0, rest,
               st\<lparr>hw_log := hw_log st @ [ClearDisplay, DisplayOn] @
                 concat (map (\<lambda>i. output_prompt_calls st i Accept) [0..<n]) @
                 fee_prompt_calls st b @ [ClearDisplay, DisplayOff]\<rparr>))
     \<and> (\<forall>bs bs' st'. askUser ASKUSER_SIGN_TRANSACTION r_uninit bs st = Inr (0, bs', st') \<longrightarrow>
        bs = replicate (if transaction_fee_set st = 0 then n else n + 1) Accept @ bs')
     \<and> (\<forall>bs r bs' st'. askUser ASKUSER_SIGN_TRANSACTION r_uninit bs st = Inr (r, bs', st')
          \<and> NextLine \<in> set (drop (length (hw_log st)) (hw_log st')) \<longrightarrow>
        transaction_fee_set st \<noteq> 0 \<and> (\<exists>rest. bs = replicate n Accept @ rest))"
proof -
  let ?st0 = "st\<lparr>hw_log := hw_log st @ [ClearDisplay, DisplayOn]\<rparr>"
  have n0: "unat (0 :: u8) + n = unat (list_index ?st0)" "unat (list_index ?st0) \<le> MAX_OUTPUTS"
    using n max by simp_all
  have denied: "askUser ASKUSER_SIGN_TRANSACTION r_uninit (replicate j Accept @ Cancel # rest) st =
          Inr (1, rest,
               st\<lparr>hw_log := hw_log st @ [ClearDisplay, DisplayOn] @
                 concat (map (\<lambda>i. output_prompt_calls st i Accept) [0..<j]) @
                 output_prompt_calls st j Cancel @ [ClearDisplay, DisplayOff]\<rparr>)"
    if "j < n" for j rest
  proof -
    have "unat (0 :: u8) + j < unat (list_index ?st0)" using that n by simp
    from sign_outputs_loop_denied [OF this n0(2), of r_uninit rest]
    show ?thesis by (simp add: askUser_sign)
  qed
  have loop: "sign_outputs_loop 0 r_uninit (replicate n Accept @ rest) ?st0 =
     Inr (0, rest, ?st0\<lparr>hw_log := hw_log ?st0 @
            concat (map (\<lambda>j. output_prompt_calls ?st0 j Accept) [unat (0 :: u8)..<unat (0 :: u8) + n])\<rparr>)"
    if "0 < n" for rest
    using sign_outputs_loop_accepts [OF n0, of r_uninit rest] that by simp
  have nofee: "askUser ASKUSER_SIGN_TRANSACTION r_uninit (replicate n Accept @ rest) st =
          Inr (0, rest,
               st\<lparr>hw_log := hw_log st @ [ClearDisplay, DisplayOn] @
                 concat (map (\<lambda>i. output_prompt_calls st i Accept) [0..<n]) @
                 [ClearDisplay, DisplayOff]\<rparr>)"
    if "0 < n" "transaction_fee_set st = 0" for rest
    using loop [OF that(1), of rest] that(2) by (simp add: askUser_sign)
  have fee: "askUser ASKUSER_SIGN_TRANSACTION r_uninit (replicate n Accept @ b # rest) st =
          Inr (if b = Cancel then 1 else 0, rest,
               st\<lparr>hw_log := hw_log st @ [ClearDisplay, DisplayOn] @
                 concat (map (\<lambda>i. output_prompt_calls st i Accept) [0..<n]) @
                 fee_prompt_calls st b @ [ClearDisplay, DisplayOff]\<rparr>)"
    if "0 < n" "transaction_fee_set st \<noteq> 0" for b rest
    using loop [OF that(1), of "b # rest"] that(2) by (simp add: askUser_sign)
  have result: "(r = 0 \<longrightarrow> bs = replicate (if transaction_fee_set st = 0 then n else n + 1) Accept @ bs')
      \<and> (NextLine \<in> set (drop (length (hw_log st)) (hw_log st')) \<longrightarrow>
          transaction_fee_set st \<noteq> 0 \<and> (\<exists>rest. bs = replicate n Accept @ rest))"
    if ask: "askUser ASKUSER_SIGN_TRANSACTION r_uninit bs st = Inr (r, bs', st')" for bs r bs' st'
  proof -
    from ask obtain r1 bs1 st1 where
      lp: "sign_outputs_loop 0 r_uninit bs ?st0 = Inr (r1, bs1, st1)"
      by (cases "sign_outputs_loop 0 r_uninit bs ?st0") (auto simp: askUser_sign)
    from sign_outputs_loop_result [OF lp n0] obtain X where
      X: "st1 = ?st0\<lparr>hw_log := hw_log ?st0 @ X\<rparr>" "NextLine \<notin> set X" and
      shape: "bs = replicate n Accept @ bs1 \<and> r1 = (if n = 0 then r_uninit else 0)
        \<or> r1 = 1 \<and> (\<exists>k<n. bs = replicate k Accept @ Cancel # bs1)"
      by blast
    have fs: "transaction_fee_set st1 = transaction_fee_set st" using X by simp
    show ?thesis
    proof (cases "r1 = 0 \<and> transaction_fee_set st \<noteq> 0")
      case True
      with ask lp fs obtain b where b: "bs1 = b # bs'" "r = (if b = Cancel then 1 else 0)"
        by (cases bs1) (auto simp: askUser_sign)
      from True shape have bs: "bs = replicate n Accept @ bs1" by auto
      have "bs = replicate (n + 1) Accept @ bs'" if "r = 0"
      proof -
        have "b = Accept" using b that by (cases b) simp_all
        then have "bs = (replicate n Accept @ [Accept]) @ bs'" using bs b by simp
        then show ?thesis by (simp add: replicate_append_same)
      qed
      then have "r = 0 \<longrightarrow> bs = replicate (n + 1) Accept @ bs'" by blast
      with True bs show ?thesis by auto
    next
      case False
      with ask lp fs have res: "r = r1" "bs' = bs1"
        "st' = st1\<lparr>hw_log := hw_log st1 @ [ClearDisplay, DisplayOff]\<rparr>"
        by (auto simp: askUser_sign)
      have "NextLine \<notin> set (drop (length (hw_log st)) (hw_log st'))"
        using res X by simp
      moreover have "r = 0 \<longrightarrow> bs = replicate n Accept @ bs' \<and> transaction_fee_set st = 0"
        using shape False res by auto
      ultimately show ?thesis by auto
    qed
  qed
  show ?thesis
    using denied nofee fee result by blast
qed

theorem C2_sign_transaction_approval_witness:
  "(\<exists>st'. askUser ASKUSER_SIGN_TRANSACTION 9 [Accept, Cancel, Accept] two_outputs
           = Inr (1, [Accept], st'))
   \<and> (\<exists>st'. askUser ASKUSER_SIGN_TRANSACTION 9 [Accept, Accept, Cancel] two_outputs
           = Inr (0, [Cancel], st'))
   \<and> (\<exists>st'. askUser ASKUSER_SIGN_TRANSACTION 9 [Accept, Accept, Cancel]
             (setTransactionFee 22 ''0.0005'' two_outputs)
           = Inr (1, [], st'))"
proof -
  have idx: "unat (list_index two_outputs) = 2"
    "unat (list_index (setTransactionFee 22 ''0.0005'' two_outputs)) = 2"
    by (simp_all add: two_outputs_def newOutputSeen_def clearOutputsSeen_def initial_state_def
        setTransactionFee_def MAX_OUTPUTS_def)
  have max: "2 \<le> MAX_OUTPUTS"
    by (simp add: MAX_OUTPUTS_def)
  have fee: "transaction_fee_set two_outputs = 0"
    "transaction_fee_set (setTransactionFee 22 ''0.0005'' two_outputs) \<noteq> 0"
    by (simp_all add: two_outputs_def newOutputSeen_def clearOutputsSeen_def initial_state_def
        setTransactionFee_def MAX_OUTPUTS_def)
  have lists: "replicate 1 Accept @ Cancel # [Accept] = [Accept, Cancel, Accept]"
    "replicate 2 Accept @ [Cancel] = [Accept, Accept, Cancel]"
    "replicate 2 Accept @ Cancel # [] = [Accept, Accept, Cancel]"
    by (simp_all add: numeral_2_eq_2)
  have lt: "(1 :: nat) < 2" "(0 :: nat) < 2"
    by simp_all
  note plain = C2_sign_transaction_approval [OF idx(1) max, of 9]
  note with_fee = C2_sign_transaction_approval [OF idx(2) max, of 9]
  have "\<exists>st'. askUser ASKUSER_SIGN_TRANSACTION 9
      (replicate 1 Accept @ Cancel # [Accept]) two_outputs = Inr (1, [Accept], st')"
    using plain [THEN conjunct1, rule_format, of 1 "[Accept]", OF lt(1)] by (rule exI)
  moreover have "\<exists>st'. askUser ASKUSER_SIGN_TRANSACTION 9
      (replicate 2 Accept @ [Cancel]) two_outputs = Inr (0, [Cancel], st')"
    using plain [THEN conjunct2, THEN conjunct1, rule_format, of "[Cancel]",
        OF conjI [OF lt(2) fee(1)]]
    by (rule exI)
  moreover have "\<exists>st'. askUser ASKUSER_SIGN_TRANSACTION 9
      (replicate 2 Accept @ Cancel # []) (setTransactionFee 22 ''0.0005'' two_outputs)
        = Inr (if Cancel = Cancel then 1 else 0, [], st')"
    using with_fee [THEN conjunct2, THEN conjunct2, THEN conjunct1, rule_format,
        of Cancel "[]", OF conjI [OF lt(2) fee(2)]]
    by (rule exI)
  ultimately show ?thesis
    unfolding lists by simp
qed

subsection \<open>\<^verbatim>\<open>askUser\<close>: the branches with a fixed number of prompts\<close>

text \<open>
  Claim C9. With the format command, a cancel at the first, the second or the third
  prompt makes \<^verbatim>\<open>askUser\<close> return 1 with no further prompt shown; after two accepts the
  third press decides; and \<^verbatim>\<open>askUser\<close> returns 0 only after three accepts in a row.
\<close>

theorem C9_format_three_confirmations:
  "askUser ASKUSER_FORMAT r_uninit (Cancel # rest) st =
     Inr (1, rest,
          st\<lparr>hw_log := hw_log st @
            [ClearDisplay, DisplayOn, WaitForNoButtonPress,
             WriteStringToDisplayWordWrap ''Format storage? This will delete everything!'',
             WaitForButtonPress Cancel, ClearDisplay, DisplayOff]\<rparr>)
   \<and> askUser ASKUSER_FORMAT r_uninit (Accept # Cancel # rest) st =
     Inr (1, rest,
          st\<lparr>hw_log := hw_log st @
            [ClearDisplay, DisplayOn, WaitForNoButtonPress,
             WriteStringToDisplayWordWrap ''Format storage? This will delete everything!'',
             WaitForButtonPress Accept, ClearDisplay, WaitForNoButtonPress,
             WriteStringToDisplayWordWrap ''Are you sure you you want to nuke all wallets?'',
             WaitForButtonPress Cancel, ClearDisplay, DisplayOff]\<rparr>)
   \<and> askUser ASKUSER_FORMAT r_uninit (Accept # Accept # b # rest) st =
     Inr (if b = Cancel then 1 else 0, rest,
          st\<lparr>hw_log := hw_log st @
            [ClearDisplay, DisplayOn, WaitForNoButtonPress,
             WriteStringToDisplayWordWrap ''Format storage? This will delete everything!'',
             WaitForButtonPress Accept, ClearDisplay, WaitForNoButtonPress,
             WriteStringToDisplayWordWrap ''Are you sure you you want to nuke all wallets?'',
             WaitForButtonPress Accept, ClearDisplay, WaitForNoButtonPress,
             WriteStringToDisplayWordWrap ''Are you really really sure?'',
             WaitForButtonPress b, ClearDisplay, DisplayOff]\<rparr>)
   \<and> (\<forall>bs bs' st'. askUser ASKUSER_FORMAT r_uninit bs st = Inr (0, bs', st')
        \<longrightarrow> bs = Accept # Accept # Accept # bs')"
proof -
  have only: "bs = Accept # Accept # Accept # bs'"
    if "askUser ASKUSER_FORMAT r_uninit bs st = Inr (0, bs', st')" for bs bs' st'
  proof (cases bs)
    case Nil
    with that show ?thesis by (simp add: askUser_def Let_def)
  next
    case c1: (Cons b1 bs1)
    show ?thesis
    proof (cases bs1)
      case Nil
      with that c1 show ?thesis by (cases b1) (simp_all add: askUser_def Let_def)
    next
      case c2: (Cons b2 bs2)
      show ?thesis
      proof (cases bs2)
        case Nil
        with that c1 c2 show ?thesis by (cases b1; cases b2) (simp_all add: askUser_def Let_def)
      next
        case c3: (Cons b3 bs3)
        with that c1 c2 show ?thesis
          by (cases b1; cases b2; cases b3) (simp_all add: askUser_def Let_def)
      qed
    qed
  qed
  show ?thesis
    using only by (simp add: askUser_def hw_calls)
qed

theorem C9_format_three_confirmations_witness:
  "(\<exists>st'. askUser ASKUSER_FORMAT 5 [Accept, Accept, Accept, Cancel] initial_state
           = Inr (0, [Cancel], st'))
   \<and> (\<exists>st'. askUser ASKUSER_FORMAT 5 [Accept, Cancel, Accept] initial_state
           = Inr (1, [Accept], st'))"
  using C9_format_three_confirmations [of 5 "[Cancel]" initial_state Accept]
    C9_format_three_confirmations [of 5 "[Accept]" initial_state Accept]
  by simp

text \<open>
  Claim C10. For a command that is none of the seven known ones, \<^verbatim>\<open>askUser\<close> shows the
  ``unknown command'' text, waits for one press and returns 1 whichever button it was.
\<close>

theorem C10_unknown_command_denied:
  "askUser (ASKUSER_OTHER v) r_uninit (b # rest) st =
     Inr (1, rest,
          st\<lparr>hw_log := hw_log st @
            [ClearDisplay, DisplayOn, WaitForNoButtonPress,
             WriteStringToDisplayWordWrap
               ''Unknown command in askUser(). Press any button to continue...'',
             WaitForButtonPress b, ClearDisplay, DisplayOff]\<rparr>)"
  by (simp add: askUser_def hw_calls)

subsection \<open>\<^verbatim>\<open>askUser\<close>: the value returned with no pending output\<close>

text \<open>
  Claim C8. After \<^verbatim>\<open>clearOutputsSeen()\<close> (no pending output, no fee), the sign-transaction
  branch assigns nothing to \<^verbatim>\<open>r\<close>: no prompt is shown, no button is read, and the value
  returned is the one \<^verbatim>\<open>r\<close> held on entry. The same command, state and button presses
  therefore give acceptance for one content of the stack and denial for another.
\<close>

theorem C8_sign_returns_uninitialised_r:
  "askUser ASKUSER_SIGN_TRANSACTION r_uninit bs (clearOutputsSeen st) =
     Inr (r_uninit, bs,
          (clearOutputsSeen st)\<lparr>hw_log := hw_log st @
            [ClearDisplay, DisplayOn, ClearDisplay, DisplayOff]\<rparr>)"
  by (simp add: askUser_sign sign_outputs_loop_exit clearOutputsSeen_def)

lemma askUser_sign_not_determined:
  "askUser ASKUSER_SIGN_TRANSACTION 0 [] (clearOutputsSeen initial_state)
     \<noteq> askUser ASKUSER_SIGN_TRANSACTION 1 [] (clearOutputsSeen initial_state)"
  by (simp add: askUser_sign sign_outputs_loop_exit clearOutputsSeen_def)

subsection \<open>\<^verbatim>\<open>writeBackupSeed\<close>\<close>

lemma seed_loop_returns:
  "seed_loop cae seed bc ln bs st = Inr (ret, bs', st') \<Longrightarrow>
   ret = None \<and> (\<exists>k \<le> length seed. bs = replicate k Accept @ bs')
   \<or> ret = Some 2 \<and> (\<exists>k < length seed. bs = replicate k Accept @ Cancel # bs')"
proof (induction seed arbitrary: bc ln bs st)
  case Nil
  then show ?case by simp
next
  case (Cons one_byte seed)
  let ?st1 = "if bc = 0 then writeStringToDisplay [nibbleToHex ln, CHR '':''] st
              else if bc AND 1 = 0 then writeStringToDisplay '' '' st else st"
  let ?st2 = "writeStringToDisplay [nibbleToHex (drop_bit 4 one_byte), nibbleToHex one_byte] ?st1"
  let ?ln2 = "if bc + 1 = 6 then ln + 1 else ln"
  let ?bc2 = "if bc + 1 = 6 then 0 else bc + 1"
  show ?case
  proof (cases "cae (hw_log ?st2)")
    case False
    with Cons.prems have "seed_loop cae seed ?bc2 ?ln2 bs ?st2 = Inr (ret, bs', st')"
      by (simp add: Let_def)
    from Cons.IH [OF this] show ?thesis by auto
  next
    case True
    show ?thesis
    proof (cases bs)
      case Nil
      with True Cons.prems show ?thesis by (simp add: Let_def)
    next
      case (Cons b bs1)
      show ?thesis
      proof (cases b)
        case Cancel
        with True Cons Cons.prems have "ret = Some 2" "bs' = bs1"
          by (simp_all add: Let_def)
        then have "bs = replicate 0 Accept @ Cancel # bs'" using Cons Cancel by simp
        with \<open>ret = Some 2\<close> show ?thesis by (metis length_Cons zero_less_Suc)
      next
        case Accept
        with True Cons Cons.prems obtain st3 where
          "seed_loop cae seed 0 ?ln2 bs1 st3 = Inr (ret, bs', st')"
          by (simp add: Let_def)
        from Cons.IH [OF this]
        have "ret = None \<and> (\<exists>k \<le> length seed. bs1 = replicate k Accept @ bs')
           \<or> ret = Some 2 \<and> (\<exists>k < length seed. bs1 = replicate k Accept @ Cancel # bs')" .
        then show ?thesis
        proof
          assume "ret = None \<and> (\<exists>k \<le> length seed. bs1 = replicate k Accept @ bs')"
          then obtain k where "ret = None" "k \<le> length seed" "bs1 = replicate k Accept @ bs'"
            by blast
          then have "Suc k \<le> length (one_byte # seed)" "bs = replicate (Suc k) Accept @ bs'"
            using Cons Accept by simp_all
          with \<open>ret = None\<close> show ?thesis by blast
        next
          assume "ret = Some 2 \<and> (\<exists>k < length seed. bs1 = replicate k Accept @ Cancel # bs')"
          then obtain k where "ret = Some 2" "k < length seed"
            "bs1 = replicate k Accept @ Cancel # bs'"
            by blast
          then have "Suc k < length (one_byte # seed)"
            "bs = replicate (Suc k) Accept @ Cancel # bs'"
            using Cons Accept by simp_all
          with \<open>ret = Some 2\<close> show ?thesis by blast
        qed
      qed
    qed
  qed
qed

lemma seed_loop_blocks:
  "seed_loop cae seed bc ln bs st = Inl f \<Longrightarrow>
   f = BLOCKED \<and> set bs \<subseteq> {Accept} \<and> length bs < length seed"
proof (induction seed arbitrary: bc ln bs st)
  case Nil
  then show ?case by simp
next
  case (Cons one_byte seed)
  let ?st1 = "if bc = 0 then writeStringToDisplay [nibbleToHex ln, CHR '':''] st
              else if bc AND 1 = 0 then writeStringToDisplay '' '' st else st"
  let ?st2 = "writeStringToDisplay [nibbleToHex (drop_bit 4 one_byte), nibbleToHex one_byte] ?st1"
  let ?ln2 = "if bc + 1 = 6 then ln + 1 else ln"
  let ?bc2 = "if bc + 1 = 6 then 0 else bc + 1"
  show ?case
  proof (cases "cae (hw_log ?st2)")
    case False
    with Cons.prems have "seed_loop cae seed ?bc2 ?ln2 bs ?st2 = Inl f"
      by (simp add: Let_def)
    from Cons.IH [OF this] show ?thesis by auto
  next
    case True
    show ?thesis
    proof (cases bs)
      case Nil
      with True Cons.prems show ?thesis by (simp add: Let_def)
    next
      case (Cons b bs1)
      show ?thesis
      proof (cases b)
        case Cancel
        with True Cons Cons.prems show ?thesis by (simp add: Let_def)
      next
        case Accept
        with True Cons Cons.prems obtain st3 where
          "seed_loop cae seed 0 ?ln2 bs1 st3 = Inl f"
          by (simp add: Let_def)
        from Cons.IH [OF this] show ?thesis using Cons Accept by simp
      qed
    qed
  qed
qed

lemma writeBackupSeed_returns:
  assumes "writeBackupSeed cae seed enc 0 bs st = Inr (r, bs', st')"
  shows "r = 2 \<and> (\<exists>k \<le> Suc (length seed). bs = replicate k Accept @ Cancel # bs')
       \<or> r = 0 \<and> (\<exists>k. 2 \<le> k \<and> k \<le> length seed + 2 \<and> bs = replicate k Accept @ bs')"
proof (cases bs)
  case Nil
  with assms show ?thesis by (simp add: writeBackupSeed_def)
next
  case (Cons b bs1)
  show ?thesis
  proof (cases b)
    case Cancel
    with Cons assms have "r = 2" "bs = replicate 0 Accept @ Cancel # bs'"
      by (simp_all add: writeBackupSeed_def)
    then show ?thesis by blast
  next
    case Accept
    let ?st1 = "seq [clearDisplay, waitForNoButtonPress]
      (hw (WaitForButtonPress Accept)
        (seq [clearDisplay, displayOn, waitForNoButtonPress,
              (if enc \<noteq> 0 then writeStringToDisplayWordWrap ''Backup is encrypted.''
               else writeStringToDisplayWordWrap ''Backup is not encrypted.'')] st))"
    have unfold: "writeBackupSeed cae seed enc 0 bs st =
      and_then (seed_loop cae seed 0 0 bs1 ?st1)
        (\<lambda>(returned, bs2, st2).
           case returned of
             Some v \<Rightarrow> Inr (v, bs2, st2)
           | None \<Rightarrow>
               and_then (waitForButtonPress bs2 (waitForNoButtonPress st2))
                 (\<lambda>(r, bs3, st3).
                    if r \<noteq> 0 then Inr (2, bs3, seq [clearDisplay, displayOff] st3)
                    else Inr (0, bs3, seq [clearDisplay, displayOff] st3)))"
      using Cons Accept by (simp add: writeBackupSeed_def waitForButtonPress_def)
    from assms unfold obtain ret bs2 st2 where
      lp: "seed_loop cae seed 0 0 bs1 ?st1 = Inr (ret, bs2, st2)"
      by (cases "seed_loop cae seed 0 0 bs1 ?st1") auto
    from seed_loop_returns [OF lp]
    show ?thesis
    proof
      assume "ret = Some 2 \<and> (\<exists>k < length seed. bs1 = replicate k Accept @ Cancel # bs2)"
      then obtain k where k: "ret = Some 2" "k < length seed"
        "bs1 = replicate k Accept @ Cancel # bs2"
        by blast
      with assms unfold lp have "r = 2" "bs' = bs2" by simp_all
      moreover have "bs = replicate (Suc k) Accept @ Cancel # bs2" "Suc k \<le> Suc (length seed)"
        using k Cons Accept by simp_all
      ultimately show ?thesis by blast
    next
      assume "ret = None \<and> (\<exists>k \<le> length seed. bs1 = replicate k Accept @ bs2)"
      then obtain k where k: "ret = None" "k \<le> length seed" "bs1 = replicate k Accept @ bs2"
        by blast
      have bs: "bs = replicate (Suc k) Accept @ bs2" using k Cons Accept by simp
      show ?thesis
      proof (cases bs2)
        case Nil
        with assms unfold lp k show ?thesis by simp
      next
        case c2: (Cons b2 bs3)
        show ?thesis
        proof (cases b2)
          case Cancel
          with assms unfold lp k c2 have "r = 2" "bs' = bs3" by simp_all
          moreover have "bs = replicate (Suc k) Accept @ Cancel # bs3" using bs c2 Cancel by simp
          ultimately show ?thesis using k(2) by (metis Suc_le_mono)
        next
          case Accept
          with assms unfold lp k c2 have "r = 0" "bs' = bs3" by simp_all
          moreover have "bs = replicate (Suc (Suc k)) Accept @ bs3"
            using bs c2 Accept by (simp add: replicate_append_same)
          moreover have "2 \<le> Suc (Suc k)" "Suc (Suc k) \<le> length seed + 2" using k(2) by simp_all
          ultimately show ?thesis by blast
        qed
      qed
    qed
  qed
qed

lemma writeBackupSeed_blocks:
  assumes "writeBackupSeed cae seed enc dev bs st = Inl f"
  shows "f = BLOCKED \<and> dev = 0 \<and> set bs \<subseteq> {Accept} \<and> length bs < length seed + 2"
proof -
  have dev: "dev = 0" using assms by (auto simp: writeBackupSeed_def split: if_splits)
  show ?thesis
  proof (cases bs)
    case Nil
    with assms dev show ?thesis by (simp add: writeBackupSeed_def)
  next
    case (Cons b bs1)
    show ?thesis
    proof (cases b)
      case Cancel
      with Cons assms dev show ?thesis by (simp add: writeBackupSeed_def)
    next
      case Accept
      define st1 where "st1 = seq [clearDisplay, waitForNoButtonPress]
        (hw (WaitForButtonPress Accept)
          (seq [clearDisplay, displayOn, waitForNoButtonPress,
                (if enc \<noteq> 0 then writeStringToDisplayWordWrap ''Backup is encrypted.''
                 else writeStringToDisplayWordWrap ''Backup is not encrypted.'')] st))"
      have unfold: "writeBackupSeed cae seed enc 0 bs st =
        and_then (seed_loop cae seed 0 0 bs1 st1)
          (\<lambda>(returned, bs2, st2).
             case returned of
               Some v \<Rightarrow> Inr (v, bs2, st2)
             | None \<Rightarrow>
                 and_then (waitForButtonPress bs2 (waitForNoButtonPress st2))
                   (\<lambda>(r, bs3, st3).
                      if r \<noteq> 0 then Inr (2, bs3, seq [clearDisplay, displayOff] st3)
                      else Inr (0, bs3, seq [clearDisplay, displayOff] st3)))"
        using Cons Accept by (simp add: writeBackupSeed_def waitForButtonPress_def st1_def)
      from assms dev have top: "writeBackupSeed cae seed enc 0 bs st = Inl f" by simp
      show ?thesis
      proof (cases "seed_loop cae seed 0 0 bs1 st1")
        case (Inl g)
        from top [unfolded unfold] have "g = f" by (simp add: Inl)
        with seed_loop_blocks [OF Inl]
        have "f = BLOCKED" "set bs1 \<subseteq> {Accept}" "length bs1 < length seed" by simp_all
        with Cons Accept dev show ?thesis by simp
      next
        case (Inr res)
        obtain ret bs2 st2 where res: "res = (ret, bs2, st2)" by (cases res)
        have lp: "seed_loop cae seed 0 0 bs1 st1 = Inr (ret, bs2, st2)" using Inr res by simp
        have after: "(case ret of
               Some v \<Rightarrow> Inr (v, bs2, st2)
             | None \<Rightarrow>
                 and_then (waitForButtonPress bs2 (waitForNoButtonPress st2))
                   (\<lambda>(r, bs3, st3).
                      if r \<noteq> 0 then Inr (2, bs3, seq [clearDisplay, displayOff] st3)
                      else Inr (0, bs3, seq [clearDisplay, displayOff] st3))) = Inl f"
          using top [unfolded unfold] by (simp add: lp)
        have none: "ret = None"
        proof (cases ret)
          case None
          then show ?thesis .
        next
          case (Some v)
          with after show ?thesis by simp
        qed
        have empty: "bs2 = [] \<and> f = BLOCKED"
        proof (cases bs2)
          case Nil
          with after none show ?thesis by simp
        next
          case (Cons b2 bs3)
          with after none show ?thesis by (cases b2) simp_all
        qed
        from seed_loop_returns [OF lp] none obtain k where
          k: "k \<le> length seed" "bs1 = replicate k Accept @ bs2"
          by auto
        have "bs = replicate (Suc k) Accept" using k empty Cons Accept by simp
        then have "set bs \<subseteq> {Accept}" "length bs < length seed + 2" using k(1) by auto
        with empty dev show ?thesis by simp
      qed
    qed
  qed
qed

lemma first_cancel_unique:
  assumes "replicate k Accept @ Cancel # x = replicate k' Accept @ Cancel # y"
  shows "k = k' \<and> x = y"
proof -
  have tw: "takeWhile (\<lambda>b. b = Accept) (replicate j Accept @ Cancel # z) = replicate j Accept"
    for j z by (induction j) simp_all
  have dw: "dropWhile (\<lambda>b. b = Accept) (replicate j Accept @ Cancel # z) = Cancel # z"
    for j z by (induction j) simp_all
  from assms have "takeWhile (\<lambda>b. b = Accept) (replicate k Accept @ Cancel # x)
      = takeWhile (\<lambda>b. b = Accept) (replicate k' Accept @ Cancel # y)"
    by simp
  then have "replicate k Accept = replicate k' Accept" by (simp only: tw)
  then have "k = k'" by (metis length_replicate)
  moreover from assms have "dropWhile (\<lambda>b. b = Accept) (replicate k Accept @ Cancel # x)
      = dropWhile (\<lambda>b. b = Accept) (replicate k' Accept @ Cancel # y)"
    by simp
  then have "x = y" by (simp only: dw list.inject)
  ultimately show ?thesis by simp
qed

lemma accepts_before_cancel:
  assumes "replicate k Accept @ Cancel # x = replicate p Accept @ y"
  shows "p \<le> k \<and> y = replicate (k - p) Accept @ Cancel # x"
proof -
  have le: "p \<le> k"
  proof (rule ccontr)
    assume "\<not> p \<le> k"
    then have "k < p" by simp
    then have "(replicate p Accept @ y) ! k = Accept" by (simp add: nth_append)
    moreover have "(replicate k Accept @ Cancel # x) ! k = Cancel" by (simp add: nth_append)
    ultimately show False using assms by simp
  qed
  from assms have "drop p (replicate k Accept @ Cancel # x) = drop p (replicate p Accept @ y)"
    by simp
  with le show ?thesis by simp
qed

lemma cancel_reaches:
  assumes "writeBackupSeed cae seed enc 0 (replicate k Accept @ Cancel # rest) st = res"
  shows "(\<exists>st'. res = Inr (2, rest, st'))
     \<or> (\<exists>p st'. 2 \<le> p \<and> p \<le> k \<and> res = Inr (0, replicate (k - p) Accept @ Cancel # rest, st'))"
proof (cases res)
  case (Inl f)
  with assms writeBackupSeed_blocks [of cae seed enc 0 "replicate k Accept @ Cancel # rest" st f]
  show ?thesis by simp
next
  case (Inr x)
  obtain r bs' st' where x: "x = (r, bs', st')" by (cases x)
  with Inr assms have
    eq: "writeBackupSeed cae seed enc 0 (replicate k Accept @ Cancel # rest) st = Inr (r, bs', st')"
    by simp
  from writeBackupSeed_returns [OF eq] show ?thesis
  proof
    assume "r = 2 \<and> (\<exists>j \<le> Suc (length seed).
      replicate k Accept @ Cancel # rest = replicate j Accept @ Cancel # bs')"
    then obtain j where "r = 2" "replicate k Accept @ Cancel # rest = replicate j Accept @ Cancel # bs'"
      by blast
    with first_cancel_unique [of k rest j bs'] Inr x show ?thesis by simp
  next
    assume "r = 0 \<and> (\<exists>p. 2 \<le> p \<and> p \<le> length seed + 2 \<and>
      replicate k Accept @ Cancel # rest = replicate p Accept @ bs')"
    then obtain p where p: "r = 0" "2 \<le> p"
      "replicate k Accept @ Cancel # rest = replicate p Accept @ bs'"
      by blast
    from accepts_before_cancel [OF p(3)] p(1,2) Inr x show ?thesis by blast
  qed
qed

text \<open>
  Claim C6. For a destination device other than 0, \<^verbatim>\<open>writeBackupSeed\<close> returns 1 at
  once: nothing is displayed and no button is read. Whenever it returns, the value is 1
  (device not 0), 2 (device 0, and the last press read was a cancel, all before it
  accepts) or 0 (device 0, and every press read was an accept: the one after the
  encryption notice, one for each full display, one after the last byte). A cancel at any
  confirmation point gives 2: with \<open>k\<close> accepts followed by a cancel, the result is 2,
  unless the seed was finished within the \<open>k\<close> accepts. The function fails to return
  only while it waits for a press that does not come.
\<close>

theorem C6_writeBackupSeed:
  "(destination_device \<noteq> 0 \<longrightarrow>
      writeBackupSeed displayCursorAtEnd seed is_encrypted destination_device bs st
        = Inr (1, bs, st))
   \<and> (\<forall>r bs' st'.
        writeBackupSeed displayCursorAtEnd seed is_encrypted destination_device bs st
          = Inr (r, bs', st') \<longrightarrow>
        r = 1 \<and> destination_device \<noteq> 0
        \<or> r = 2 \<and> destination_device = 0
            \<and> (\<exists>k \<le> Suc (length seed). bs = replicate k Accept @ Cancel # bs')
        \<or> r = 0 \<and> destination_device = 0
            \<and> (\<exists>k. 2 \<le> k \<and> k \<le> length seed + 2 \<and> bs = replicate k Accept @ bs'))
   \<and> (\<forall>k rest. destination_device = 0 \<and> bs = replicate k Accept @ Cancel # rest \<longrightarrow>
        (\<exists>st'. writeBackupSeed displayCursorAtEnd seed is_encrypted destination_device bs st
                = Inr (2, rest, st'))
        \<or> (\<exists>p st'. 2 \<le> p \<and> p \<le> k
              \<and> writeBackupSeed displayCursorAtEnd seed is_encrypted destination_device bs st
                  = Inr (0, replicate (k - p) Accept @ Cancel # rest, st')))
   \<and> (\<forall>f.
        writeBackupSeed displayCursorAtEnd seed is_encrypted destination_device bs st = Inl f
          \<longrightarrow>
        f = BLOCKED \<and> destination_device = 0 \<and> set bs \<subseteq> {Accept}
        \<and> length bs < length seed + 2)"
proof -
  have one: "writeBackupSeed displayCursorAtEnd seed is_encrypted destination_device bs st
        = Inr (1, bs, st)" if "destination_device \<noteq> 0"
    using that by (simp add: writeBackupSeed_def)
  have ret: "r = 1 \<and> destination_device \<noteq> 0
        \<or> r = 2 \<and> destination_device = 0
            \<and> (\<exists>k \<le> Suc (length seed). bs = replicate k Accept @ Cancel # bs')
        \<or> r = 0 \<and> destination_device = 0
            \<and> (\<exists>k. 2 \<le> k \<and> k \<le> length seed + 2 \<and> bs = replicate k Accept @ bs')"
    if res: "writeBackupSeed displayCursorAtEnd seed is_encrypted destination_device bs st
          = Inr (r, bs', st')" for r bs' st'
  proof (cases "destination_device = 0")
    case True
    with writeBackupSeed_returns [of displayCursorAtEnd seed is_encrypted bs st r bs' st'] res
    show ?thesis by simp
  next
    case False
    with one res show ?thesis by simp
  qed
  have cancel: "(\<exists>st'. writeBackupSeed displayCursorAtEnd seed is_encrypted destination_device bs st
                = Inr (2, rest, st'))
        \<or> (\<exists>p st'. 2 \<le> p \<and> p \<le> k
              \<and> writeBackupSeed displayCursorAtEnd seed is_encrypted destination_device bs st
                  = Inr (0, replicate (k - p) Accept @ Cancel # rest, st'))"
    if "destination_device = 0" "bs = replicate k Accept @ Cancel # rest" for k rest
    using cancel_reaches [OF refl, of displayCursorAtEnd seed is_encrypted k rest st] that
    by simp
  have blocks: "f = BLOCKED \<and> destination_device = 0 \<and> set bs \<subseteq> {Accept}
        \<and> length bs < length seed + 2"
    if "writeBackupSeed displayCursorAtEnd seed is_encrypted destination_device bs st = Inl f"
    for f
    using writeBackupSeed_blocks [OF that] .
  have A: "destination_device \<noteq> 0 \<longrightarrow>
      writeBackupSeed displayCursorAtEnd seed is_encrypted destination_device bs st
        = Inr (1, bs, st)"
    using one by (rule impI)
  have B: "\<forall>r bs' st'.
        writeBackupSeed displayCursorAtEnd seed is_encrypted destination_device bs st
          = Inr (r, bs', st') \<longrightarrow>
        r = 1 \<and> destination_device \<noteq> 0
        \<or> r = 2 \<and> destination_device = 0
            \<and> (\<exists>k \<le> Suc (length seed). bs = replicate k Accept @ Cancel # bs')
        \<or> r = 0 \<and> destination_device = 0
            \<and> (\<exists>k. 2 \<le> k \<and> k \<le> length seed + 2 \<and> bs = replicate k Accept @ bs')"
    using ret by (intro allI impI)
  have C: "\<forall>k rest. destination_device = 0 \<and> bs = replicate k Accept @ Cancel # rest \<longrightarrow>
        (\<exists>st'. writeBackupSeed displayCursorAtEnd seed is_encrypted destination_device bs st
                = Inr (2, rest, st'))
        \<or> (\<exists>p st'. 2 \<le> p \<and> p \<le> k
              \<and> writeBackupSeed displayCursorAtEnd seed is_encrypted destination_device bs st
                  = Inr (0, replicate (k - p) Accept @ Cancel # rest, st'))"
  proof (intro allI impI)
    fix k rest
    assume "destination_device = 0 \<and> bs = replicate k Accept @ Cancel # rest"
    then have "destination_device = 0" "bs = replicate k Accept @ Cancel # rest" by simp_all
    then show "(\<exists>st'. writeBackupSeed displayCursorAtEnd seed is_encrypted destination_device bs st
                = Inr (2, rest, st'))
        \<or> (\<exists>p st'. 2 \<le> p \<and> p \<le> k
              \<and> writeBackupSeed displayCursorAtEnd seed is_encrypted destination_device bs st
                  = Inr (0, replicate (k - p) Accept @ Cancel # rest, st'))"
      by (rule cancel)
  qed
  have D: "\<forall>f.
        writeBackupSeed displayCursorAtEnd seed is_encrypted destination_device bs st = Inl f
          \<longrightarrow>
        f = BLOCKED \<and> destination_device = 0 \<and> set bs \<subseteq> {Accept}
        \<and> length bs < length seed + 2"
    using blocks by (intro allI impI)
  show ?thesis
    by (rule conjI [OF A conjI [OF B conjI [OF C D]]])
qed

theorem C6_writeBackupSeed_witness:
  "writeBackupSeed (\<lambda>calls. length calls mod 2 = 0) [0xAB, 0xCD] 0 1 [Accept] initial_state
     = Inr (1, [Accept], initial_state)
   \<and> (\<exists>st'. writeBackupSeed (\<lambda>calls. length calls mod 2 = 0) [0xAB, 0xCD] 0 0
               [Accept, Accept, Cancel, Accept] initial_state = Inr (2, [Accept], st'))
   \<and> (\<exists>st'. writeBackupSeed (\<lambda>calls. False) [0xAB, 0xCD] 1 0
               [Accept, Accept, Cancel] initial_state = Inr (0, [Cancel], st'))"
proof -
  have dev: "(1 :: u8) \<noteq> 0"
    by simp
  have a: "writeBackupSeed (\<lambda>calls. length calls mod 2 = 0) [0xAB, 0xCD] 0 1 [Accept]
      initial_state = Inr (1, [Accept], initial_state)"
    using C6_writeBackupSeed [THEN conjunct1, rule_format, OF dev] .
  have prem: "(0 :: u8) = 0
      \<and> [Accept, Accept, Cancel, Accept] = replicate 2 Accept @ Cancel # [Accept]"
    by (simp add: numeral_2_eq_2)
  have b: "\<exists>st'. writeBackupSeed (\<lambda>calls. length calls mod 2 = 0) [0xAB, 0xCD] 0 0
      [Accept, Accept, Cancel, Accept] initial_state = Inr (2, [Accept], st')"
    using C6_writeBackupSeed [of 0 "\<lambda>calls. length calls mod 2 = 0" "[0xAB, 0xCD]" 0
        "[Accept, Accept, Cancel, Accept]" initial_state,
        THEN conjunct2, THEN conjunct2, THEN conjunct1, rule_format, OF prem]
    by (simp add: writeBackupSeed_def hw_calls initial_state_def Let_def)
  have c: "\<exists>st'. writeBackupSeed (\<lambda>calls. False) [0xAB, 0xCD] 1 0
      [Accept, Accept, Cancel] initial_state = Inr (0, [Cancel], st')"
    by (simp add: writeBackupSeed_def Let_def)
  from a b c show ?thesis
    by (intro conjI)
qed

subsection \<open>Packets\<close>

lemma le32_bytes_value: "le32_bytes (le32_value b0 b1 b2 b3) = [b0, b1, b2, b3]"
proof -
  have "ucast (le32_value b0 b1 b2 b3) = b0"
    by (rule bit_word_eqI) (auto simp: le32_value_def bit_simps dest: bit_imp_le_length)
  moreover have "ucast (drop_bit 8 (le32_value b0 b1 b2 b3)) = b1"
    by (rule bit_word_eqI) (auto simp: le32_value_def bit_simps dest: bit_imp_le_length)
  moreover have "ucast (drop_bit 16 (le32_value b0 b1 b2 b3)) = b2"
    by (rule bit_word_eqI) (auto simp: le32_value_def bit_simps dest: bit_imp_le_length)
  moreover have "ucast (drop_bit 24 (le32_value b0 b1 b2 b3)) = b3"
    by (rule bit_word_eqI) (auto simp: le32_value_def bit_simps dest: bit_imp_le_length)
  ultimately show ?thesis by (simp add: le32_bytes_def)
qed

lemma le32_value_bytes:
  "le32_value (ucast w) (ucast (drop_bit 8 w)) (ucast (drop_bit 16 w)) (ucast (drop_bit 24 w)) = w"
proof (rule bit_word_eqI)
  fix n
  assume "n < LENGTH(32)"
  then have n: "n < 32" by simp
  consider "n < 8" | "8 \<le> n" "n < 16" | "16 \<le> n" "n < 24" | "24 \<le> n" by linarith
  then show "bit (le32_value (ucast w) (ucast (drop_bit 8 w)) (ucast (drop_bit 16 w))
      (ucast (drop_bit 24 w))) n = bit w n"
    using n by cases (auto simp: le32_value_def bit_simps)
qed

lemma decode_Some:
  "decode p = Some pk \<Longrightarrow>
   \<exists>t b0 b1 b2 b3 v. p = t # b0 # b1 # b2 # b3 # v
     \<and> length v = unat (le32_value b0 b1 b2 b3)
     \<and> pk = \<lparr>ptype = t, plength = le32_value b0 b1 b2 b3, pvalue = v\<rparr>"
  by (auto simp: decode_def split: list.splits if_splits)

lemma decode_encode:
  "unat (plength pk) = length (pvalue pk) \<Longrightarrow> decode (encode pk) = Some pk"
  by (simp add: decode_def encode_def le32_bytes_def le32_value_bytes)

text \<open>
  Claim C4. A byte sequence that decodes as a packet is reproduced exactly by encoding
  that packet: it is the type byte, the four bytes of the little-endian length, and the
  value, whose number of bytes is the declared length. (A declared length is a 32-bit
  number, so it is within what the four length bytes can hold.)
\<close>

theorem C4_packet_roundtrip:
  "decode p = Some pk \<Longrightarrow>
   encode pk = p
   \<and> p = ptype pk # le32_bytes (plength pk) @ pvalue pk
   \<and> length (le32_bytes (plength pk)) = 4
   \<and> length (pvalue pk) = unat (plength pk)"
proof -
  assume "decode p = Some pk"
  from decode_Some [OF this] obtain t b0 b1 b2 b3 v where
    p: "p = t # b0 # b1 # b2 # b3 # v" and
    len: "length v = unat (le32_value b0 b1 b2 b3)" and
    pk: "pk = \<lparr>ptype = t, plength = le32_value b0 b1 b2 b3, pvalue = v\<rparr>"
    by blast
  have "encode pk = p"
    by (simp add: encode_def pk p le32_bytes_value)
  moreover have "length (le32_bytes (plength pk)) = 4"
    by (simp add: le32_bytes_def)
  moreover have "length (pvalue pk) = unat (plength pk)"
    by (simp add: pk len)
  ultimately show ?thesis
    by (simp add: encode_def)
qed

theorem C4_packet_roundtrip_witness:
  "decode [0x0B, 0x02, 0x01, 0x00, 0x00] = None
   \<and> decode [0x11, 0x02, 0x00, 0x00, 0x00, 0x01, 0x00]
       = Some \<lparr>ptype = 0x11, plength = 2, pvalue = [0x01, 0x00]\<rparr>
   \<and> encode \<lparr>ptype = 0x11, plength = 2, pvalue = [0x01, 0x00]\<rparr>
       = [0x11, 0x02, 0x00, 0x00, 0x00, 0x01, 0x00]
   \<and> le32_value 0x04 0x03 0x02 0x01 = 0x01020304"
proof -
  have d: "decode [0x11, 0x02, 0x00, 0x00, 0x00, 0x01, 0x00]
       = Some \<lparr>ptype = 0x11, plength = 2, pvalue = [0x01, 0x00]\<rparr>"
    by (simp add: decode_def le32_value_def)
  from C4_packet_roundtrip [OF d] d show ?thesis
    by (simp add: decode_def le32_value_def)
qed

subsection \<open>The staged update\<close>

lemma writes_below_bytewise:
  "address + length bs \<le> b \<Longrightarrow> writes_below b (bytewise address bs)"
proof (induction bs arbitrary: address)
  case Nil
  then show ?case by (simp add: writes_below_def)
next
  case (Cons v vs)
  then have "writes_below b (bytewise (Suc address) vs)" by simp
  moreover have "address < b" using Cons.prems by simp
  ultimately show ?case by (simp add: writes_below_def)
qed

lemma writes_below_append:
  "writes_below b (xs @ ys) \<longleftrightarrow> writes_below b xs \<and> writes_below b ys"
  by (auto simp: writes_below_def)

lemma writes_below_take: "writes_below b ops \<Longrightarrow> writes_below b (take j ops)"
  by (auto simp: writes_below_def dest: in_set_takeD)

lemma fold_writes_below:
  "writes_below b ops \<Longrightarrow>
   nv_read b n (fold apply_op ops mem) = nv_read b n mem
   \<and> length (fold apply_op ops mem) = length mem"
proof (induction ops arbitrary: mem)
  case Nil
  then show ?case by simp
next
  case (Cons op ops)
  then obtain a v where op: "op = WriteByte a v" "a < b"
    by (auto simp: writes_below_def)
  from Cons.prems have "writes_below b ops" by (simp add: writes_below_def)
  from Cons.IH [OF this, of "mem[a := v]"] op show ?case
    by (simp add: nv_read_def drop_update_cancel)
qed

lemma fold_bytewise:
  "address + length bs \<le> length mem \<Longrightarrow>
   fold apply_op (bytewise address bs) mem = nv_write address bs mem"
proof (induction bs arbitrary: address mem)
  case Nil
  then show ?case by (simp add: nv_write_def)
next
  case (Cons v vs)
  then have lt: "address < length mem" by simp
  have "fold apply_op (bytewise (Suc address) vs) (mem[address := v]) =
        nv_write (Suc address) vs (mem[address := v])"
    using Cons.prems by (intro Cons.IH) simp
  also have "\<dots> = nv_write address (v # vs) mem"
    using lt by (simp add: nv_write_def take_Suc_conv_app_nth drop_update_cancel)
  finally show ?case by simp
qed

lemma nv_read_write_same:
  "address + length bs \<le> length mem \<Longrightarrow> nv_read address (length bs) (nv_write address bs mem) = bs"
  by (simp add: nv_read_def nv_write_def)

lemma length_nv_write:
  "address + length bs \<le> length mem \<Longrightarrow> length (nv_write address bs mem) = length mem"
  by (simp add: nv_write_def)

lemma bytewise_range:
  "op \<in> set (bytewise address bs) \<Longrightarrow>
   \<exists>a v. op = WriteByte a v \<and> address \<le> a \<and> a < address + length bs"
proof (induction bs arbitrary: address)
  case Nil
  then show ?case by simp
next
  case (Cons v vs)
  from Cons.prems have "op = WriteByte address v \<or> op \<in> set (bytewise (Suc address) vs)"
    by simp
  then show ?case
  proof
    assume "op = WriteByte address v"
    then show ?thesis by simp
  next
    assume "op \<in> set (bytewise (Suc address) vs)"
    from Cons.IH [OF this] obtain a w where
      "op = WriteByte a w" "Suc address \<le> a" "a < Suc address + length vs"
      by blast
    then have "op = WriteByte a w \<and> address \<le> a \<and> a < address + length (v # vs)" by simp
    then show ?thesis by blast
  qed
qed

lemma staging_below_records: "ADDRESS_WALLET_STAGING + WALLET_RECORD_LENGTH \<le> wallet_record_address i"
  by (simp add: wallet_record_address_closed ADDRESS_WALLET_START_def)

lemma length_nv_read:
  "address + n \<le> length mem \<Longrightarrow> length (nv_read address n mem) = n"
  by (simp add: nv_read_def)

lemma staged_commit:
  assumes room: "wallet_record_address i + WALLET_RECORD_LENGTH \<le> length mem"
    and len: "length (mutator (read_record i mem)) = WALLET_RECORD_LENGTH"
  shows "writes_below (wallet_record_address i) (stage_ops mutator i mem)"
    and "length (fold apply_op (stage_ops mutator i mem) mem) = length mem"
    and "nv_read ADDRESS_WALLET_STAGING WALLET_RECORD_LENGTH
           (fold apply_op (stage_ops mutator i mem) mem) = mutator (read_record i mem)"
    and "read_record i (apply_op (CopyRecord ADDRESS_WALLET_STAGING (wallet_record_address i))
           (fold apply_op (stage_ops mutator i mem) mem)) = mutator (read_record i mem)"
    and "length (apply_op (CopyRecord ADDRESS_WALLET_STAGING (wallet_record_address i))
           (fold apply_op (stage_ops mutator i mem) mem)) = length mem"
proof -
  let ?old = "read_record i mem" and ?new = "mutator (read_record i mem)"
  let ?slot = "wallet_record_address i"
  let ?m2 = "fold apply_op (stage_ops mutator i mem) mem"
  have old: "length ?old = WALLET_RECORD_LENGTH"
    using room by (simp add: read_record_def length_nv_read)
  have below: "ADDRESS_WALLET_STAGING + WALLET_RECORD_LENGTH \<le> ?slot"
    by (rule staging_below_records)
  show wb: "writes_below ?slot (stage_ops mutator i mem)"
    using below by (simp add: stage_ops_def writes_below_append writes_below_bytewise old len)
  from fold_writes_below [OF wb] show l2: "length ?m2 = length mem" by simp
  have fits: "ADDRESS_WALLET_STAGING + WALLET_RECORD_LENGTH \<le> length mem"
    using below room by simp
  have m1: "fold apply_op (bytewise ADDRESS_WALLET_STAGING ?old) mem
      = nv_write ADDRESS_WALLET_STAGING ?old mem"
    using fits by (simp add: fold_bytewise old)
  have l1: "length (nv_write ADDRESS_WALLET_STAGING ?old mem) = length mem"
    using fits by (simp add: length_nv_write old)
  have m2: "?m2 = nv_write ADDRESS_WALLET_STAGING ?new (nv_write ADDRESS_WALLET_STAGING ?old mem)"
    using fits by (simp add: stage_ops_def m1 fold_bytewise len l1)
  have "nv_read ADDRESS_WALLET_STAGING (length ?new) ?m2 = ?new"
    unfolding m2 using fits by (intro nv_read_write_same) (simp add: len l1)
  then show staged: "nv_read ADDRESS_WALLET_STAGING WALLET_RECORD_LENGTH ?m2 = ?new"
    by (simp add: len)
  have copy: "apply_op (CopyRecord ADDRESS_WALLET_STAGING ?slot) ?m2 = nv_write ?slot ?new ?m2"
    by (simp add: staged)
  have "nv_read ?slot (length ?new) (nv_write ?slot ?new ?m2) = ?new"
    using room by (intro nv_read_write_same) (simp add: len l2)
  then have "nv_read ?slot WALLET_RECORD_LENGTH (nv_write ?slot ?new ?m2) = ?new"
    by (simp only: len)
  then have "nv_read ?slot WALLET_RECORD_LENGTH
      (apply_op (CopyRecord ADDRESS_WALLET_STAGING ?slot) ?m2) = ?new"
    by (simp only: copy)
  then show "read_record i (apply_op (CopyRecord ADDRESS_WALLET_STAGING ?slot) ?m2) = ?new"
    by (simp only: read_record_def)
  show "length (apply_op (CopyRecord ADDRESS_WALLET_STAGING ?slot) ?m2) = length mem"
    unfolding copy using room by (simp add: length_nv_write len l2)
qed

lemma power_loss_record:
  assumes room: "wallet_record_address i + WALLET_RECORD_LENGTH \<le> length mem"
    and len: "length (mutator (read_record i mem)) = WALLET_RECORD_LENGTH"
  shows "read_record i (power_loss_after j mutator checksum_ok i mem) =
     (if checksum_ok (mutator (read_record i mem))
         \<and> length (stage_ops mutator i mem) < j
      then mutator (read_record i mem) else read_record i mem)"
proof -
  let ?stage = "stage_ops mutator i mem"
  let ?slot = "wallet_record_address i"
  let ?copy = "CopyRecord ADDRESS_WALLET_STAGING ?slot"
  let ?zero = "bytewise ADDRESS_WALLET_STAGING (replicate WALLET_RECORD_LENGTH 0)"
  note sc = staged_commit [where mutator = mutator, OF room len]
  have ops: "updateWalletField_ops mutator checksum_ok i mem =
      ?stage @ (if checksum_ok (mutator (read_record i mem)) then ?copy # ?zero else [])"
    by (simp add: updateWalletField_ops_def sc(3))
  show ?thesis
  proof (cases "checksum_ok (mutator (read_record i mem)) \<and> length ?stage < j")
    case False
    then have "take j (updateWalletField_ops mutator checksum_ok i mem) = take j ?stage"
      by (auto simp: ops)
    moreover have "writes_below ?slot (take j ?stage)"
      using sc(1) by (rule writes_below_take)
    ultimately have "read_record i (power_loss_after j mutator checksum_ok i mem)
        = read_record i mem"
      by (simp add: power_loss_after_def read_record_def fold_writes_below)
    with False show ?thesis by auto
  next
    case True
    then obtain k where j: "j = length ?stage + Suc k"
      by (metis add_Suc_right less_iff_Suc_add)
    have tk: "take j (updateWalletField_ops mutator checksum_ok i mem)
        = ?stage @ ?copy # take k ?zero"
      using True by (simp add: ops j)
    have "writes_below ?slot ?zero"
      using staging_below_records [of i] by (intro writes_below_bytewise) simp
    then have wz: "writes_below ?slot (take k ?zero)"
      by (rule writes_below_take)
    have "read_record i (power_loss_after j mutator checksum_ok i mem)
        = read_record i (apply_op ?copy (fold apply_op ?stage mem))"
      unfolding power_loss_after_def tk read_record_def
      by (simp add: fold_writes_below [OF wz])
    with sc(4) True show ?thesis by simp
  qed
qed

lemma length_bytewise [simp]: "length (bytewise address bs) = length bs"
  by (induction bs arbitrary: address) simp_all

text \<open>
  Claim C1. An update of the record in slot \<open>i\<close> never writes the slot in place: every
  byte write of the update lies in the staging area, and the only write to the slot is the
  copy of the staging area, made only when the staged record passed the checksum. So after
  a power loss at any point (after any number \<open>j\<close> of the update's writes) the slot holds
  the old record or the new one, never a mixture: the old one up to and including the
  last staging write, the new one from the copy on. A completed update leaves the new
  record, or the old one when verification failed.
\<close>

theorem C1_staged_update_atomic:
  assumes room: "wallet_record_address i + WALLET_RECORD_LENGTH \<le> length mem"
    and len: "length (mutator (read_record i mem)) = WALLET_RECORD_LENGTH"
  shows
    "(\<forall>j. read_record i (power_loss_after j mutator checksum_ok i mem) = read_record i mem
          \<or> read_record i (power_loss_after j mutator checksum_ok i mem)
              = mutator (read_record i mem))
     \<and> (\<forall>j. read_record i (power_loss_after j mutator checksum_ok i mem) =
          (if checksum_ok (mutator (read_record i mem)) \<and> 2 * WALLET_RECORD_LENGTH < j
           then mutator (read_record i mem) else read_record i mem))
     \<and> (\<forall>op \<in> set (updateWalletField_ops mutator checksum_ok i mem).
          (\<exists>a v. op = WriteByte a v \<and> ADDRESS_WALLET_STAGING \<le> a
             \<and> a < ADDRESS_WALLET_STAGING + WALLET_RECORD_LENGTH)
          \<or> op = CopyRecord ADDRESS_WALLET_STAGING (wallet_record_address i)
             \<and> checksum_ok (mutator (read_record i mem)))
     \<and> read_record i (updateWalletField mutator checksum_ok i mem) =
          (if checksum_ok (mutator (read_record i mem))
           then mutator (read_record i mem) else read_record i mem)"
proof -
  let ?old = "read_record i mem" and ?new = "mutator (read_record i mem)"
  let ?ops = "updateWalletField_ops mutator checksum_ok i mem"
  note sc = staged_commit [where mutator = mutator, OF room len]
  have old: "length ?old = WALLET_RECORD_LENGTH"
    using room by (simp add: read_record_def length_nv_read)
  have stage: "length (stage_ops mutator i mem) = 2 * WALLET_RECORD_LENGTH"
    by (simp add: stage_ops_def old len)
  have ops: "?ops = stage_ops mutator i mem @
      (if checksum_ok ?new
       then CopyRecord ADDRESS_WALLET_STAGING (wallet_record_address i) #
            bytewise ADDRESS_WALLET_STAGING (replicate WALLET_RECORD_LENGTH 0)
       else [])"
    by (simp add: updateWalletField_ops_def sc(3))
  have crash: "read_record i (power_loss_after j mutator checksum_ok i mem) =
      (if checksum_ok ?new \<and> 2 * WALLET_RECORD_LENGTH < j then ?new else ?old)" for j
    using power_loss_record [where mutator = mutator and checksum_ok = checksum_ok and j = j,
        OF room len]
    by (simp only: stage)
  have A: "\<forall>j. read_record i (power_loss_after j mutator checksum_ok i mem) = ?old
      \<or> read_record i (power_loss_after j mutator checksum_ok i mem) = ?new"
    by (simp add: crash)
  have B: "\<forall>j. read_record i (power_loss_after j mutator checksum_ok i mem) =
      (if checksum_ok ?new \<and> 2 * WALLET_RECORD_LENGTH < j then ?new else ?old)"
    using crash by (rule allI)
  have C: "\<forall>op \<in> set ?ops.
      (\<exists>a v. op = WriteByte a v \<and> ADDRESS_WALLET_STAGING \<le> a
         \<and> a < ADDRESS_WALLET_STAGING + WALLET_RECORD_LENGTH)
      \<or> op = CopyRecord ADDRESS_WALLET_STAGING (wallet_record_address i) \<and> checksum_ok ?new"
  proof
    fix op
    assume "op \<in> set ?ops"
    then consider "op \<in> set (bytewise ADDRESS_WALLET_STAGING ?old)"
      | "op \<in> set (bytewise ADDRESS_WALLET_STAGING ?new)"
      | "op = CopyRecord ADDRESS_WALLET_STAGING (wallet_record_address i)" "checksum_ok ?new"
      | "op \<in> set (bytewise ADDRESS_WALLET_STAGING (replicate WALLET_RECORD_LENGTH 0))"
      by (auto simp: ops stage_ops_def split: if_splits)
    then show "(\<exists>a v. op = WriteByte a v \<and> ADDRESS_WALLET_STAGING \<le> a
         \<and> a < ADDRESS_WALLET_STAGING + WALLET_RECORD_LENGTH)
      \<or> op = CopyRecord ADDRESS_WALLET_STAGING (wallet_record_address i) \<and> checksum_ok ?new"
    proof cases
      case 1
      from bytewise_range [OF this] show ?thesis by (simp add: old)
    next
      case 2
      from bytewise_range [OF this] show ?thesis by (simp add: len)
    next
      case 3
      then show ?thesis by simp
    next
      case 4
      from bytewise_range [OF this] show ?thesis by simp
    qed
  qed
  have "updateWalletField mutator checksum_ok i mem
      = power_loss_after (length ?ops) mutator checksum_ok i mem"
    by (simp add: updateWalletField_def power_loss_after_def)
  moreover have "checksum_ok ?new \<Longrightarrow> 2 * WALLET_RECORD_LENGTH < length ?ops"
    using stage by (simp add: ops)
  ultimately have D: "read_record i (updateWalletField mutator checksum_ok i mem) =
      (if checksum_ok ?new then ?new else ?old)"
    by (simp add: crash)
  show ?thesis
    by (rule conjI [OF A conjI [OF B conjI [OF C D]]])
qed

theorem C1_staged_update_atomic_witness:
  "read_record 0 (replicate 448 0) = replicate 160 0
   \<and> read_record 0 (power_loss_after 320 (map (\<lambda>b. b + 1)) (\<lambda>r. True) 0 (replicate 448 0))
       = replicate 160 0
   \<and> read_record 0 (power_loss_after 321 (map (\<lambda>b. b + 1)) (\<lambda>r. True) 0 (replicate 448 0))
       = replicate 160 1
   \<and> read_record 0 (updateWalletField (map (\<lambda>b. b + 1)) (\<lambda>r. True) 0 (replicate 448 0))
       = replicate 160 1
   \<and> read_record 0 (updateWalletField (map (\<lambda>b. b + 1)) (\<lambda>r. False) 0 (replicate 448 0))
       = replicate 160 0"
proof -
  have old: "read_record 0 (replicate 448 0) = replicate 160 0"
    by (simp add: read_record_def nv_read_def ADDRESS_WALLET_START_def
        ADDRESS_WALLET_STAGING_def WALLET_RECORD_LENGTH_def)
  have room: "wallet_record_address 0 + WALLET_RECORD_LENGTH \<le> length (replicate 448 (0 :: u8))"
    by (simp add: ADDRESS_WALLET_START_def ADDRESS_WALLET_STAGING_def WALLET_RECORD_LENGTH_def)
  have len: "length (map (\<lambda>b. b + 1) (read_record 0 (replicate 448 (0 :: u8))))
      = WALLET_RECORD_LENGTH"
    by (simp add: old WALLET_RECORD_LENGTH_def)
  note t = C1_staged_update_atomic [where mutator = "map (\<lambda>b. b + 1)", OF room len]
  note crash = t [where checksum_ok = "\<lambda>r. True", THEN conjunct2, THEN conjunct1, rule_format]
  note done_ok = t [where checksum_ok = "\<lambda>r. True", THEN conjunct2, THEN conjunct2, THEN conjunct2]
  note done_bad = t [where checksum_ok = "\<lambda>r. False", THEN conjunct2, THEN conjunct2, THEN conjunct2]
  show ?thesis
    using crash [of 320] crash [of 321] done_ok done_bad
    by (simp add: old WALLET_RECORD_LENGTH_def)
qed

subsection \<open>The invariant of the pending outputs\<close>

text \<open>
  The invariant holds at reset and is kept by every function of the file:
  \<^verbatim>\<open>newOutputSeen\<close>, \<^verbatim>\<open>setTransactionFee\<close> and \<^verbatim>\<open>clearOutputsSeen\<close> keep it, and
  \<^verbatim>\<open>askUser\<close> and \<^verbatim>\<open>writeBackupSeed\<close> change nothing but the log of hardware calls.
\<close>

lemma outputs_inv_initial_state: "outputs_inv initial_state"
  by (simp add: outputs_inv_def arrays_ok_def initial_state_def)

lemma outputs_inv_newOutputSeen:
  "outputs_inv st \<Longrightarrow> outputs_inv (snd (newOutputSeen al dl a d st))"
  by (auto simp: outputs_inv_def arrays_ok_def newOutputSeen_def unat_list_index_Suc)

lemma outputs_inv_setTransactionFee:
  "outputs_inv st \<Longrightarrow> outputs_inv (setTransactionFee al a st)"
  by (simp add: outputs_inv_def arrays_ok_def setTransactionFee_def)

lemma outputs_inv_clearOutputsSeen:
  "outputs_inv st \<Longrightarrow> outputs_inv (clearOutputsSeen st)"
  by (simp add: outputs_inv_def arrays_ok_def clearOutputsSeen_def)

lemma outputs_inv_hw_log: "outputs_inv (st\<lparr>hw_log := l\<rparr>) = outputs_inv st"
  by (simp add: outputs_inv_def arrays_ok_def)

lemma waitForButtonPress_log:
  "waitForButtonPress bs st = Inr (r, bs', st') \<Longrightarrow> \<exists>l. st' = st\<lparr>hw_log := l\<rparr>"
  by (cases bs) auto

lemma askUser_log:
  assumes "askUser command r_uninit bs st = Inr (r, bs', st')"
    and "unat (list_index st) \<le> MAX_OUTPUTS"
  shows "\<exists>l. st' = st\<lparr>hw_log := l\<rparr>"
proof (cases "command = ASKUSER_SIGN_TRANSACTION")
  case True
  let ?st0 = "st\<lparr>hw_log := hw_log st @ [ClearDisplay, DisplayOn]\<rparr>"
  from assms(1) True obtain r1 bs1 st1 where
    lp: "sign_outputs_loop 0 r_uninit bs ?st0 = Inr (r1, bs1, st1)"
    by (cases "sign_outputs_loop 0 r_uninit bs ?st0") (auto simp: askUser_sign)
  have "unat (0 :: u8) + unat (list_index st) = unat (list_index ?st0)"
    "unat (list_index ?st0) \<le> MAX_OUTPUTS"
    using assms(2) by simp_all
  from sign_outputs_loop_result [OF lp this] obtain X where
    "st1 = ?st0\<lparr>hw_log := hw_log ?st0 @ X\<rparr>"
    by blast
  then have st1: "st1 = st\<lparr>hw_log := hw_log st @ [ClearDisplay, DisplayOn] @ X\<rparr>" by simp
  from assms(1) True lp show ?thesis
    by (auto simp: askUser_sign st1 split: if_splits list.splits)
next
  case False
  with assms(1) show ?thesis
    by (cases command; cases bs)
      (auto simp: askUser_def Let_def hw_calls and_then_def
        split: if_splits list.splits sum.splits prod.splits
        dest!: waitForButtonPress_log)
qed

lemma seed_loop_log:
  "seed_loop cae seed bc ln bs st = Inr (ret, bs', st') \<Longrightarrow> \<exists>l. st' = st\<lparr>hw_log := l\<rparr>"
proof (induction seed arbitrary: bc ln bs st)
  case Nil
  then have "st' = st\<lparr>hw_log := hw_log st\<rparr>" by simp
  then show ?case by blast
next
  case (Cons one_byte seed)
  let ?st1 = "if bc = 0 then writeStringToDisplay [nibbleToHex ln, CHR '':''] st
              else if bc AND 1 = 0 then writeStringToDisplay '' '' st else st"
  let ?st2 = "writeStringToDisplay [nibbleToHex (drop_bit 4 one_byte), nibbleToHex one_byte] ?st1"
  let ?ln2 = "if bc + 1 = 6 then ln + 1 else ln"
  let ?bc2 = "if bc + 1 = 6 then 0 else bc + 1"
  obtain l2 where l2: "?st2 = st\<lparr>hw_log := l2\<rparr>"
    by (cases "bc = 0"; cases "bc AND 1 = 0") (simp_all add: hw_calls)
  show ?case
  proof (cases "cae (hw_log ?st2)")
    case False
    with Cons.prems have "seed_loop cae seed ?bc2 ?ln2 bs ?st2 = Inr (ret, bs', st')"
      by (simp add: Let_def)
    from Cons.IH [OF this] obtain l where "st' = ?st2\<lparr>hw_log := l\<rparr>" by blast
    then have "st' = st\<lparr>hw_log := l\<rparr>" by (simp only: l2) simp
    then show ?thesis by blast
  next
    case True
    show ?thesis
    proof (cases bs)
      case Nil
      with True Cons.prems show ?thesis by (simp add: Let_def)
    next
      case (Cons b bs1)
      let ?st3 = "hw (WaitForButtonPress b) (waitForNoButtonPress ?st2)"
      have st3: "?st3 = st\<lparr>hw_log := hw_log ?st2 @ [WaitForNoButtonPress, WaitForButtonPress b]\<rparr>"
        by (simp only: l2) (simp add: hw_calls)
      show ?thesis
      proof (cases b)
        case Cancel
        with True Cons Cons.prems have "st' = seq [clearDisplay, displayOff] ?st3"
          by (simp add: Let_def hw_def)
        then have "st' = st\<lparr>hw_log := hw_log ?st2 @
            [WaitForNoButtonPress, WaitForButtonPress b, ClearDisplay, DisplayOff]\<rparr>"
          by (simp only: st3) (simp add: hw_calls)
        then show ?thesis by blast
      next
        case Accept
        with True Cons Cons.prems have
          "seed_loop cae seed 0 ?ln2 bs1 (clearDisplay ?st3) = Inr (ret, bs', st')"
          by (simp add: Let_def hw_def)
        from Cons.IH [OF this] obtain l where "st' = (clearDisplay ?st3)\<lparr>hw_log := l\<rparr>"
          by blast
        then have "st' = st\<lparr>hw_log := l\<rparr>" by (simp only: st3) (simp add: hw_calls)
        then show ?thesis by blast
      qed
    qed
  qed
qed

lemma writeBackupSeed_log:
  assumes "writeBackupSeed cae seed enc dev bs st = Inr (r, bs', st')"
  shows "\<exists>l. st' = st\<lparr>hw_log := l\<rparr>"
proof (cases "dev = 0")
  case False
  with assms have "st' = st\<lparr>hw_log := hw_log st\<rparr>" by (simp add: writeBackupSeed_def)
  then show ?thesis by blast
next
  case True
  show ?thesis
  proof (cases bs)
    case Nil
    with assms True show ?thesis by (simp add: writeBackupSeed_def)
  next
    case (Cons b bs1)
    show ?thesis
    proof (cases b)
      case Cancel
      with assms True Cons show ?thesis by (auto simp: writeBackupSeed_def hw_calls)
    next
      case Accept
      define st1 where "st1 = seq [clearDisplay, waitForNoButtonPress]
        (hw (WaitForButtonPress Accept)
          (seq [clearDisplay, displayOn, waitForNoButtonPress,
                (if enc \<noteq> 0 then writeStringToDisplayWordWrap ''Backup is encrypted.''
                 else writeStringToDisplayWordWrap ''Backup is not encrypted.'')] st))"
      have st1: "\<exists>l. st1 = st\<lparr>hw_log := l\<rparr>"
        by (cases "enc = 0") (auto simp: st1_def hw_calls)
      have unfold: "writeBackupSeed cae seed enc dev bs st =
        and_then (seed_loop cae seed 0 0 bs1 st1)
          (\<lambda>(returned, bs2, st2).
             case returned of
               Some v \<Rightarrow> Inr (v, bs2, st2)
             | None \<Rightarrow>
                 and_then (waitForButtonPress bs2 (waitForNoButtonPress st2))
                   (\<lambda>(r, bs3, st3).
                      if r \<noteq> 0 then Inr (2, bs3, seq [clearDisplay, displayOff] st3)
                      else Inr (0, bs3, seq [clearDisplay, displayOff] st3)))"
        using Cons Accept True by (simp add: writeBackupSeed_def waitForButtonPress_def st1_def)
      from assms unfold obtain ret bs2 st2 where
        lp: "seed_loop cae seed 0 0 bs1 st1 = Inr (ret, bs2, st2)"
        by (cases "seed_loop cae seed 0 0 bs1 st1") auto
      from seed_loop_log [OF lp] st1 obtain l2 where st2: "st2 = st\<lparr>hw_log := l2\<rparr>"
        by auto
      show ?thesis
      proof (cases ret)
        case (Some v)
        with assms [unfolded unfold] lp st2 show ?thesis by auto
      next
        case None
        show ?thesis
        proof (cases bs2)
          case Nil
          with assms [unfolded unfold] lp None show ?thesis by simp
        next
          case c2: (Cons b2 bs3)
          with assms [unfolded unfold] lp None st2 show ?thesis
            by (cases b2) (auto simp: hw_calls)
        qed
      qed
    qed
  qed
qed

end
